theory Spec2Isabelle
  imports
    Main
    "HOL-Library.Sublist"
    "HOL-Library.Char_ord"
    "HOL-Library.List_Lexorder"
    "HOL-Library.AList"
    "HOL-Library.Word"
begin

section \<open>Python strings\<close>

text \<open>
  A Python \<^verbatim>\<open>str\<close> is modelled as a \<^typ>\<open>string\<close> whose characters are the code points
  0 to 255 (the ISO-8859-1 range): \<^term>\<open>of_char c\<close> is the code point of \<open>c\<close>. Every
  literal of \<^verbatim>\<open>anki_to_json.py\<close> lies in that range (the accented e of the second
  default label is code point 233). The order of \<^typ>\<open>string\<close> is the lexicographic order
  on code points, as Python compares strings.
\<close>

definition isspace :: "char \<Rightarrow> bool" where
  \<comment> \<open>\<^verbatim>\<open>str.isspace\<close> and the class \<^verbatim>\<open>\s\<close> of \<^verbatim>\<open>re\<close> on code points below 256\<close>
  "isspace c = (of_char c \<in> {9, 10, 11, 12, 13, 28, 29, 30, 31, 32, 133, 160 :: nat})"

definition strip :: "string \<Rightarrow> string" where
  \<comment> \<open>\<^verbatim>\<open>str.strip()\<close>\<close>
  "strip s = rev (dropWhile isspace (rev (dropWhile isspace s)))"

definition lower_char :: "char \<Rightarrow> char" where
  "lower_char c =
     (let n = (of_char c :: nat)
      in if (65 \<le> n \<and> n \<le> 90) \<or> (192 \<le> n \<and> n \<le> 222 \<and> n \<noteq> 215)
         then char_of (n + 32) else c)"

definition lower :: "string \<Rightarrow> string" where
  \<comment> \<open>\<^verbatim>\<open>str.lower()\<close>\<close>
  "lower s = map lower_char s"

fun join :: "string \<Rightarrow> string list \<Rightarrow> string" where
  \<comment> \<open>\<^verbatim>\<open>sep.join(parts)\<close>\<close>
  "join sep [] = []"
| "join sep [p] = p"
| "join sep (p # q # ps) = p @ sep @ join sep (q # ps)"

function split :: "string \<Rightarrow> string \<Rightarrow> string list" where
  \<comment> \<open>\<^verbatim>\<open>s.split(sep)\<close> for a non-empty separator, scanning from the left\<close>
  "split sep [] = [[]]"
| "split sep (c # cs) =
     (if sep \<noteq> [] \<and> prefix sep (c # cs)
      then [] # split sep (drop (length sep - 1) cs)
      else (case split sep cs of [] \<Rightarrow> [[c]] | p # ps \<Rightarrow> (c # p) # ps))"
  by pat_completeness auto
termination
  by (relation "measure (\<lambda>(sep, s). length s)") auto

function re_sub :: "(string \<Rightarrow> (string \<times> nat) option) \<Rightarrow> string \<Rightarrow> string" where
  \<comment> \<open>\<^verbatim>\<open>re.sub\<close> for a pattern that matches no empty string: \<open>m s\<close> tries the pattern at
      the start of \<open>s\<close> and gives the replacement text and the length of the match; the scan
      goes on after the match, or one character further where there is none\<close>
  "re_sub m [] = []"
| "re_sub m (c # cs) =
     (case m (c # cs) of
        None \<Rightarrow> c # re_sub m cs
      | Some (rep, n) \<Rightarrow> rep @ re_sub m (drop (n - 1) cs))"
  by pat_completeness auto
termination
  by (relation "measure (\<lambda>(m, s). length s)") auto

definition replace :: "string \<Rightarrow> string \<Rightarrow> string \<Rightarrow> string" where
  \<comment> \<open>\<^verbatim>\<open>s.replace(old, new)\<close>\<close>
  "replace old new s =
     (if old = [] then new @ concat (map (\<lambda>c. c # new) s)
      else re_sub (\<lambda>t. if prefix old t then Some (new, length old) else None) s)"

definition delimited :: "string \<Rightarrow> char \<Rightarrow> string \<Rightarrow> (string \<times> nat) option" where
  \<comment> \<open>a match of \<^verbatim>\<open>opener([^stop]+)stop\<close> at the start of \<open>s\<close>: the group and the length of
      the match. The greedy run of non-\<open>stop\<close> characters must be non-empty and be followed
      by \<open>stop\<close>; a shorter run is followed by a non-\<open>stop\<close> character, so backtracking finds
      nothing more\<close>
  "delimited opener stop s =
     (if prefix opener s
      then (let r = drop (length opener) s;
                run = takeWhile (\<lambda>c. c \<noteq> stop) r
            in if run \<noteq> [] \<and> length run < length r
               then Some (run, length opener + length run + 1) else None)
      else None)"

section \<open>Text sanitizer\<close>

definition match_sound :: "string \<Rightarrow> (string \<times> nat) option" where
  \<comment> \<open>\<^verbatim>\<open>\[sound:[^\]]+\]\<close> replaced by the empty string\<close>
  "match_sound s = map_option (\<lambda>(g, n). ([], n)) (delimited ''[sound:'' (CHR '']'') s)"

definition match_br :: "string \<Rightarrow> (string \<times> nat) option" where
  \<comment> \<open>\<^verbatim>\<open><br\s*/?>\<close> with \<^verbatim>\<open>re.IGNORECASE\<close>, replaced by a newline\<close>
  "match_br s =
     (case s of
        lt # b # r # rest \<Rightarrow>
          if lt = CHR ''<'' \<and> (b = CHR ''b'' \<or> b = CHR ''B'') \<and> (r = CHR ''r'' \<or> r = CHR ''R'')
          then (let rest1 = dropWhile isspace rest;
                    rest2 = (case rest1 of [] \<Rightarrow> [] | x # xs \<Rightarrow> if x = CHR ''/'' then xs else rest1)
                in case rest2 of
                     [] \<Rightarrow> None
                   | g # _ \<Rightarrow> if g = CHR ''>''
                             then Some ([CHR 0x0A], 3 + (length rest - length rest2) + 1)
                             else None)
          else None
      | _ \<Rightarrow> None)"

definition match_tag :: "string \<Rightarrow> (string \<times> nat) option" where
  \<comment> \<open>\<^verbatim>\<open><[^>]+>\<close> replaced by the empty string\<close>
  "match_tag s = map_option (\<lambda>(g, n). ([], n)) (delimited ''<'' (CHR ''>'') s)"

definition clean_html :: "string \<Rightarrow> string" where
  "clean_html text =
     (if text = [] then []
      else (let text = re_sub match_sound text;
                text = re_sub match_br text;
                text = re_sub match_tag text;
                text = replace ''&nbsp;'' '' '' text;
                text = replace ''&lt;'' ''<'' text;
                text = replace ''&gt;'' ''>'' text;
                text = replace ''&amp;'' ''&'' text;
                text = replace ''&quot;'' [CHR 0x22] text
            in strip text))"

definition match_src :: "string \<Rightarrow> (string \<times> nat) option" where
  \<comment> \<open>\<^verbatim>\<open>src="(?!media/)(?!http)([^"]+)"\<close> replaced by \<^verbatim>\<open>src="media/\1"\<close>\<close>
  "match_src s =
     (let opener = ''src='' @ [CHR 0x22];
          r = drop (length opener) s
      in if prefix ''media/'' r \<or> prefix ''http'' r then None
         else map_option (\<lambda>(g, n). (opener @ ''media/'' @ g @ [CHR 0x22], n))
                (delimited opener (CHR 0x22) s))"

definition match_sound_ref :: "string \<Rightarrow> (string \<times> nat) option" where
  \<comment> \<open>\<^verbatim>\<open>\[sound:([^\]]+)\]\<close> replaced by \<^verbatim>\<open><audio controls src="media/\1"></audio>\<close>\<close>
  "match_sound_ref s =
     map_option (\<lambda>(g, n). (''<audio controls src='' @ [CHR 0x22] @ ''media/'' @ g
                              @ [CHR 0x22] @ ''></audio>'', n))
       (delimited ''[sound:'' (CHR '']'') s)"

definition fix_media_paths :: "string \<Rightarrow> string" where
  "fix_media_paths html =
     (if html = [] then []
      else (let html = re_sub match_src html;
                html = re_sub match_sound_ref html
            in html))"

fun nat_str :: "nat \<Rightarrow> string" where
  "nat_str n = (if n < 10 then [char_of (48 + n)] else nat_str (n div 10) @ [char_of (48 + n mod 10)])"

declare nat_str.simps [simp del]

definition str_int :: "int \<Rightarrow> string" where
  \<comment> \<open>\<^verbatim>\<open>str(i)\<close> of a Python integer\<close>
  "str_int i = (if i < 0 then ''-'' @ nat_str (nat (- i)) else nat_str (nat i))"

section \<open>Archive and file system\<close>

text \<open>
  A zip archive is the list of its members, name and bytes. The file system holds the
  directories and files that exist, each under its path as written, and the lines printed
  so far (the progress sink). The current directory and the root always exist. The model
  does not resolve \<^verbatim>\<open>.\<close>, \<^verbatim>\<open>..\<close>, repeated slashes or links, and it leaves out permissions,
  a full disk and a damaged zip container; member names are plain file names.
\<close>

type_synonym bytes = "8 word list"

datatype json =
    JObject "(string \<times> json) list"
  | JArray "json list"
  | JString string
  | JNumber int
  | JBool bool
  | JNull

datatype parsed = JSONDecodeError | Parsed json

record archive =
  members :: "(string \<times> bytes) list"
  media_json :: parsed
    \<comment> \<open>what \<^verbatim>\<open>json.loads\<close> makes of the text of the member \<^verbatim>\<open>media\<close>, once decoded\<close>

record world =
  dirs :: "string set"
  files :: "string \<rightharpoonup> bytes"
  stdout :: "string list"

datatype error =
    FileNotFoundError
  | FileExistsError
  | NotADirectoryError
  | UnicodeDecodeError
  | AttributeError
  | TypeError

definition cont :: "8 word \<Rightarrow> bool" where
  "cont b = (0x80 \<le> b \<and> b \<le> 0xBF)"

fun valid_utf8 :: "bytes \<Rightarrow> bool" where
  \<comment> \<open>whether \<^verbatim>\<open>bytes.decode('utf-8')\<close> succeeds (well-formed UTF-8, RFC 3629)\<close>
  "valid_utf8 [] = True"
| "valid_utf8 (b # bs) =
     (if b < 0x80 then valid_utf8 bs
      else if 0xC2 \<le> b \<and> b \<le> 0xDF then
        (case bs of c1 # r \<Rightarrow> cont c1 \<and> valid_utf8 r | _ \<Rightarrow> False)
      else if 0xE0 \<le> b \<and> b \<le> 0xEF then
        (case bs of c1 # c2 # r \<Rightarrow>
           (if b = 0xE0 then 0xA0 \<le> c1 \<and> c1 \<le> 0xBF
            else if b = 0xED then 0x80 \<le> c1 \<and> c1 \<le> 0x9F
            else cont c1) \<and> cont c2 \<and> valid_utf8 r
         | _ \<Rightarrow> False)
      else if 0xF0 \<le> b \<and> b \<le> 0xF4 then
        (case bs of c1 # c2 # c3 # r \<Rightarrow>
           (if b = 0xF0 then 0x90 \<le> c1 \<and> c1 \<le> 0xBF
            else if b = 0xF4 then 0x80 \<le> c1 \<and> c1 \<le> 0x8F
            else cont c1) \<and> cont c2 \<and> cont c3 \<and> valid_utf8 r
         | _ \<Rightarrow> False)
      else False)"

definition zip_read :: "archive \<Rightarrow> string \<Rightarrow> bytes option" where
  \<comment> \<open>\<^verbatim>\<open>zip_ref.read(name)\<close>; \<open>None\<close> is the \<^verbatim>\<open>KeyError\<close> of a missing member\<close>
  "zip_read zip_ref name = map_of (members zip_ref) name"

definition os_path_join :: "string \<Rightarrow> string \<Rightarrow> string" where
  \<comment> \<open>\<^verbatim>\<open>os.path.join(a, b)\<close> of \<^verbatim>\<open>posixpath\<close>\<close>
  "os_path_join a b =
     (if b \<noteq> [] \<and> hd b = CHR ''/'' then b
      else if a = [] \<or> last a = CHR ''/'' then a @ b
      else a @ ''/'' @ b)"

definition os_path_exists :: "world \<Rightarrow> string \<Rightarrow> bool" where
  "os_path_exists w p = (p \<in> dirs w \<or> files w p \<noteq> None)"

definition write_file :: "string \<Rightarrow> bytes \<Rightarrow> world \<Rightarrow> world" where
  "write_file p data w = w\<lparr>files := (files w)(p \<mapsto> data)\<rparr>"

definition os_path_isdir :: "world \<Rightarrow> string \<Rightarrow> bool" where
  "os_path_isdir w p = (p \<in> dirs w)"

definition os_path_split :: "string \<Rightarrow> string \<times> string" where
  \<comment> \<open>\<^verbatim>\<open>os.path.split(p)\<close> of \<^verbatim>\<open>posixpath\<close>: the tail follows the last slash; the head loses
      its trailing slashes unless it is made of slashes only\<close>
  "os_path_split p =
     (let tail = rev (takeWhile (\<lambda>c. c \<noteq> CHR ''/'') (rev p));
          head = rev (dropWhile (\<lambda>c. c \<noteq> CHR ''/'') (rev p))
      in if head \<noteq> [] \<and> \<not> list_all (\<lambda>c. c = CHR ''/'') head
         then (rev (dropWhile (\<lambda>c. c = CHR ''/'') (rev head)), tail)
         else (head, tail))"

definition split_name :: "string \<Rightarrow> string \<times> string" where
  \<comment> \<open>the first two statements of \<^verbatim>\<open>os.makedirs\<close>:
      \<^verbatim>\<open>head, tail = path.split(name)\<close> and
      \<^verbatim>\<open>if not tail: head, tail = path.split(head)\<close>\<close>
  "split_name name =
     (let (head, tail) = os_path_split name
      in if tail = [] then os_path_split head else (head, tail))"

definition mkdir :: "string \<Rightarrow> world \<Rightarrow> world \<times> (error + unit)" where
  \<comment> \<open>\<^verbatim>\<open>os.mkdir(name)\<close>: the path must not exist, and its parent must be a directory\<close>
  "mkdir name w =
     (let parent = fst (split_name name)
      in if name = [] then (w, Inl FileNotFoundError)
         else if os_path_exists w name then (w, Inl FileExistsError)
         else if parent = [] \<or> list_all (\<lambda>c. c = CHR ''/'') parent \<or> os_path_isdir w parent
         then (w\<lparr>dirs := insert name (dirs w)\<rparr>, Inr ())
         else if files w parent \<noteq> None then (w, Inl NotADirectoryError)
         else (w, Inl FileNotFoundError))"

definition mkdir_exist_ok :: "string \<Rightarrow> world \<Rightarrow> world \<times> (error + unit)" where
  \<comment> \<open>the last statement of \<^verbatim>\<open>os.makedirs\<close> with \<^verbatim>\<open>exist_ok=True\<close>: an error of \<^verbatim>\<open>mkdir\<close>
      is raised again unless the path is a directory\<close>
  "mkdir_exist_ok name w =
     (case mkdir name w of
        (w, Inl e) \<Rightarrow> if os_path_isdir w name then (w, Inr ()) else (w, Inl e)
      | (w, Inr u) \<Rightarrow> (w, Inr u))"

function makedirs :: "string \<Rightarrow> world \<Rightarrow> world \<times> (error + unit)" where
  \<comment> \<open>\<^verbatim>\<open>os.makedirs(name, exist_ok=True)\<close>: a missing head is made first, and only its
      \<^verbatim>\<open>FileExistsError\<close> is passed over\<close>
  "makedirs name w =
     (if fst (split_name name) \<noteq> [] \<and> snd (split_name name) \<noteq> []
         \<and> \<not> os_path_exists w (fst (split_name name))
      then (case makedirs (fst (split_name name)) w of
              (w, Inl e) \<Rightarrow>
                if e = FileExistsError
                then (if snd (split_name name) = ''.'' then (w, Inr ()) else mkdir_exist_ok name w)
                else (w, Inl e)
            | (w, Inr u) \<Rightarrow>
                if snd (split_name name) = ''.'' then (w, Inr ()) else mkdir_exist_ok name w)
      else mkdir_exist_ok name w)"
  by pat_completeness auto

termination makedirs
proof -
  have head_le: "length (fst (os_path_split p)) \<le> length p" for p
  proof -
    have a: "length (dropWhile P (rev p)) \<le> length p" for P
      by (metis length_dropWhile_le length_rev)
    have b: "length (dropWhile Q (dropWhile P (rev p))) \<le> length p" for P Q
      by (rule le_trans[OF length_dropWhile_le a])
    show ?thesis by (simp add: os_path_split_def Let_def a b)
  qed
  have head_less: "length (fst (os_path_split p)) < length p" if "snd (os_path_split p) \<noteq> []" for p
  proof -
    from that have t: "takeWhile (\<lambda>c. c \<noteq> CHR ''/'') (rev p) \<noteq> []"
      by (simp add: os_path_split_def Let_def split: if_splits)
    have "length (takeWhile (\<lambda>c. c \<noteq> CHR ''/'') (rev p))
          + length (dropWhile (\<lambda>c. c \<noteq> CHR ''/'') (rev p)) = length p"
      by (metis length_append length_rev takeWhile_dropWhile_id)
    with t have a: "length (dropWhile (\<lambda>c. c \<noteq> CHR ''/'') (rev p)) < length p"
      by (cases "takeWhile (\<lambda>c. c \<noteq> CHR ''/'') (rev p)") auto
    have b: "length (dropWhile Q (dropWhile (\<lambda>c. c \<noteq> CHR ''/'') (rev p))) < length p" for Q
      by (rule le_less_trans[OF length_dropWhile_le a])
    show ?thesis by (simp add: os_path_split_def Let_def a b)
  qed
  have name_less: "length (fst (split_name name)) < length name"
    if a: "snd (split_name name) \<noteq> []" for name
  proof -
    obtain h t where ht: "os_path_split name = (h, t)" by (cases "os_path_split name")
    show ?thesis
    proof (cases "t = []")
      case True
      with ht a have "snd (os_path_split h) \<noteq> []" by (simp add: split_name_def)
      then have "length (fst (os_path_split h)) < length h" by (rule head_less)
      moreover have "length h \<le> length name" using head_le[of name] ht by simp
      ultimately show ?thesis using True ht by (simp add: split_name_def)
    next
      case False
      with ht have "snd (os_path_split name) \<noteq> []" by simp
      then have "length (fst (os_path_split name)) < length name" by (rule head_less)
      with False ht show ?thesis by (simp add: split_name_def)
    qed
  qed
  show ?thesis
    by (relation "measure (\<lambda>(name, w). length name)") (simp_all add: name_less)
qed

declare makedirs.simps [simp del]

definition and_then ::
  "world \<times> (error + 'a) \<Rightarrow> (world \<Rightarrow> world \<times> (error + 'b)) \<Rightarrow> world \<times> (error + 'b)" where
  \<comment> \<open>the next statement runs in the world the last one left, unless that one raised\<close>
  "and_then r f = (case r of (w, Inl e) \<Rightarrow> (w, Inl e) | (w, Inr u) \<Rightarrow> f w)"

definition print :: "string \<Rightarrow> world \<Rightarrow> world" where
  "print line w = w\<lparr>stdout := stdout w @ [line]\<rparr>"

definition extractall :: "archive \<Rightarrow> string \<Rightarrow> world \<Rightarrow> world" where
  \<comment> \<open>\<^verbatim>\<open>zip_ref.extractall(extract_dir)\<close>\<close>
  "extractall zip_ref extract_dir w =
     fold (\<lambda>(name, data). write_file (os_path_join extract_dir name) data) (members zip_ref)
       (w\<lparr>dirs := insert extract_dir (dirs w)\<rparr>)"

definition extract_colpkg :: "archive \<Rightarrow> string \<Rightarrow> world \<Rightarrow> world \<times> (error + string)" where
  "extract_colpkg zip_ref extract_dir w =
     (let w = extractall zip_ref extract_dir w
      in case find (\<lambda>db_name. os_path_exists w (os_path_join extract_dir db_name))
                [''collection.anki21'', ''collection.anki2''] of
           Some db_name \<Rightarrow> (w, Inr (os_path_join extract_dir db_name))
         | None \<Rightarrow> (w, Inl FileNotFoundError))"

fun write_media ::
  "archive \<Rightarrow> string \<Rightarrow> (string \<times> json) list \<Rightarrow> nat \<Rightarrow> world \<Rightarrow> world \<times> (error + nat)" where
  \<comment> \<open>the loop over \<^verbatim>\<open>media_map.items()\<close>\<close>
  "write_media zip_ref media_dir [] media_count w = (w, Inr media_count)"
| "write_media zip_ref media_dir ((num_name, original_name) # rest) media_count w =
     (case zip_read zip_ref num_name of
        None \<Rightarrow> write_media zip_ref media_dir rest media_count w
      | Some data \<Rightarrow>
          (case original_name of
             JString name \<Rightarrow>
               write_media zip_ref media_dir rest (media_count + 1)
                 (write_file (os_path_join media_dir name) data w)
           | _ \<Rightarrow> (w, Inl TypeError)))"

definition extract_media :: "archive \<Rightarrow> string \<Rightarrow> world \<Rightarrow> world \<times> (error + nat)" where
  "extract_media zip_ref output_dir w =
     (let media_dir = os_path_join output_dir ''media''
      in and_then (makedirs media_dir w)
           (\<lambda>w. case zip_read zip_ref ''media'' of
                  None \<Rightarrow> (print ''No media mapping found in archive.'' w, Inr 0)
                | Some raw \<Rightarrow>
                    if \<not> valid_utf8 raw then (w, Inl UnicodeDecodeError)
                    else (case media_json zip_ref of
                            JSONDecodeError \<Rightarrow>
                              (print ''No media mapping found in archive.'' w, Inr 0)
                          | Parsed (JObject media_map) \<Rightarrow>
                              write_media zip_ref media_dir media_map 0 w
                          | Parsed _ \<Rightarrow> (w, Inl AttributeError))))"

section \<open>Deck tree builder\<close>

text \<open>
  The nodes of the tree are Python dictionaries that \<^verbatim>\<open>deck_map\<close>, \<^verbatim>\<open>root_nodes\<close> and the
  \<^verbatim>\<open>children\<close> lists share by reference, and \<^verbatim>\<open>append\<close> mutates them in place. The model
  keeps them in a store: a node's address is its index in \<open>heap\<close>, and every reference is
  an address. Addresses are handed out by \<open>create_node\<close> only, so each one that is read
  is below the length of the store.
\<close>

record deck =
  d_id :: string  \<comment> \<open>the key \<^verbatim>\<open>"id"\<close>\<close>
  d_name :: string  \<comment> \<open>the key \<^verbatim>\<open>"name"\<close>\<close>

record node =
  node_id :: string
  node_name :: string
  fullPath :: string
  children :: "nat list"

record tree_state =
  heap :: "node list"
  deck_map :: "(string \<times> nat) list"
  root_nodes :: "nat list"

definition create_node :: "deck \<Rightarrow> string \<Rightarrow> string \<Rightarrow> nat option \<Rightarrow> tree_state \<Rightarrow> tree_state" where
  \<comment> \<open>the body of \<^verbatim>\<open>if current_path not in deck_map\<close>\<close>
  "create_node deck part current_path parent st =
     (let a = length (heap st);
          new = \<lparr>node_id = (if current_path = d_name deck then d_id deck
                             else ''virtual_'' @ current_path),
                 node_name = part, fullPath = current_path, children = []\<rparr>;
          st = st\<lparr>heap := heap st @ [new],
                  deck_map := AList.update current_path a (deck_map st)\<rparr>
      in case parent of
           Some p \<Rightarrow>
             st\<lparr>heap := (heap st)[p := (heap st ! p)\<lparr>children := children (heap st ! p) @ [a]\<rparr>]\<rparr>
         | None \<Rightarrow>
             if \<exists>r \<in> set (root_nodes st). fullPath (heap st ! r) = current_path then st
             else st\<lparr>root_nodes := root_nodes st @ [a]\<rparr>)"

fun walk_parts :: "deck \<Rightarrow> string list \<Rightarrow> string \<Rightarrow> nat option \<Rightarrow> tree_state \<Rightarrow> tree_state" where
  \<comment> \<open>the loop \<^verbatim>\<open>for i, part in enumerate(parts)\<close>\<close>
  "walk_parts deck [] current_path parent st = st"
| "walk_parts deck (part # parts) current_path parent st =
     (let current_path = (if current_path \<noteq> [] then current_path @ ''::'' @ part else part);
          st = (if map_of (deck_map st) current_path = None
                then create_node deck part current_path parent st else st)
      in walk_parts deck parts current_path (map_of (deck_map st) current_path) st)"

definition add_deck :: "tree_state \<Rightarrow> deck \<Rightarrow> tree_state" where
  \<comment> \<open>the body of \<^verbatim>\<open>for deck in sorted_decks\<close>\<close>
  "add_deck st deck = walk_parts deck (split ''::'' (d_name deck)) [] None st"

definition build_deck_tree :: "(string \<times> deck) list \<Rightarrow> node list \<times> nat list" where
  \<comment> \<open>the result is \<^verbatim>\<open>root_nodes\<close>, with the store its references point into\<close>
  "build_deck_tree decks =
     (let sorted_decks = sort_key d_name (map snd decks);
          st = foldl add_deck \<lparr>heap = [], deck_map = [], root_nodes = []\<rparr> sorted_decks
      in (heap st, root_nodes st))"

text \<open>
  The tree that the references denote, as \<^verbatim>\<open>json.dump\<close> writes it. The traversal is
  bounded by the size of the store; \<open>None\<close> stands for a store whose references do not
  form a tree.
\<close>

datatype deck_node =
  DeckNode (dn_id: string) (dn_name: string) (dn_fullPath: string) (dn_children: "deck_node list")

fun node_tree :: "node list \<Rightarrow> nat \<Rightarrow> nat \<Rightarrow> deck_node option" where
  "node_tree h 0 a = None"
| "node_tree h (Suc fuel) a =
     (if a < length h
      then map_option (DeckNode (node_id (h ! a)) (node_name (h ! a)) (fullPath (h ! a)))
             (those (map (node_tree h fuel) (children (h ! a))))
      else None)"

definition tree_of :: "node list \<times> nat list \<Rightarrow> deck_node list option" where
  "tree_of g = those (map (node_tree (fst g) (length (fst g))) (snd g))"

fun nodes_of :: "deck_node \<Rightarrow> deck_node list" where
  \<comment> \<open>a node and all its descendants\<close>
  "nodes_of (DeckNode i n p cs) = DeckNode i n p cs # concat (map nodes_of cs)"

fun paths_joined :: "string list \<Rightarrow> deck_node \<Rightarrow> bool" where
  \<comment> \<open>every \<open>fullPath\<close> below is the join of the names from the root, \<open>anc\<close> being the names
      of the ancestors\<close>
  "paths_joined anc (DeckNode i n p cs) =
     (p = join ''::'' (anc @ [n]) \<and> list_all (paths_joined (anc @ [n])) cs)"

section \<open>Collection parser\<close>

record deck_info =
  name_entry :: "string option"
    \<comment> \<open>the entry \<^verbatim>\<open>"name"\<close> of a deck's JSON object, if it has one\<close>

record col_row =
  col_decks :: "(string \<times> deck_info) list option"
    \<comment> \<open>the column \<^verbatim>\<open>decks\<close> as \<^verbatim>\<open>json.loads\<close> reads it, a dictionary in insertion order;
        \<open>None\<close> for a null or empty column. The column \<^verbatim>\<open>tags\<close> is read and not used;
        both columns hold JSON text or nothing\<close>

record note_row =
  n_id :: int
  n_mid :: int
  n_flds :: string
  n_tags :: string

record card_row =
  c_id :: int
  c_nid :: int
  c_did :: int
  c_ord :: int

record database =
  col :: "col_row list"
  notes_tbl :: "note_row list"
  cards_tbl :: "card_row list"

record note_dict =
  note_id :: int
  model_id :: int
  note_fields :: "string list"

record card =
  deckId :: string
  front :: string
  frontClean :: string
  card_back :: string  \<comment> \<open>the key \<^verbatim>\<open>"back"\<close>\<close>
  backClean :: string

record collection =
  out_decks :: "node list \<times> nat list"  \<comment> \<open>the key \<^verbatim>\<open>"decks"\<close>\<close>
  out_cards :: "card list"  \<comment> \<open>the key \<^verbatim>\<open>"cards"\<close>\<close>

definition default_labels :: "string list" where
  "default_labels = [''default'', ''par d'' @ [CHR 0xE9] @ ''faut'']"

definition get_name :: "deck_info \<Rightarrow> string" where
  \<comment> \<open>\<^verbatim>\<open>deck_info.get("name", "Unknown")\<close>\<close>
  "get_name deck_info = (case name_entry deck_info of None \<Rightarrow> ''Unknown'' | Some n \<Rightarrow> n)"

fun collect_decks ::
  "(string \<times> deck_info) list \<Rightarrow> (string \<times> deck) list \<Rightarrow> (string \<times> deck) list" where
  \<comment> \<open>the loop \<^verbatim>\<open>for deck_id, deck_info in decks_json.items()\<close>\<close>
  "collect_decks [] decks = decks"
| "collect_decks ((deck_id, deck_info) # rest) decks =
     (let deck_name = get_name deck_info
      in if lower deck_name \<in> set default_labels then collect_decks rest decks
         else collect_decks rest
                (AList.update deck_id \<lparr>d_id = deck_id, d_name = deck_name\<rparr> decks))"

fun read_notes :: "note_row list \<Rightarrow> (int \<rightharpoonup> note_dict) \<Rightarrow> (int \<rightharpoonup> note_dict)" where
  \<comment> \<open>the loop over the rows of \<^verbatim>\<open>SELECT id, mid, flds, tags FROM notes\<close>\<close>
  "read_notes [] notes = notes"
| "read_notes (r # rows) notes =
     (let field_list = (if n_flds r \<noteq> [] then split [CHR 0x1F] (n_flds r) else [])
      in read_notes rows
           (notes(n_id r \<mapsto> \<lparr>note_id = n_id r, model_id = n_mid r, note_fields = field_list\<rparr>)))"

definition make_card :: "(int \<rightharpoonup> note_dict) \<Rightarrow> card_row \<Rightarrow> card" where
  \<comment> \<open>the card built for a row whose note has no card yet\<close>
  "make_card notes r =
     (let fields = (case notes (c_nid r) of None \<Rightarrow> [] | Some n \<Rightarrow> note_fields n);
          front = (case fields of [] \<Rightarrow> [] | f # _ \<Rightarrow> f);
          back_parts = (if length fields > 1 then tl fields else []);
          back = join ''<br>'' (filter (\<lambda>part. strip part \<noteq> []) back_parts)
      in \<lparr>deckId = str_int (c_did r),
          front = fix_media_paths front,
          frontClean = clean_html front,
          card_back = fix_media_paths back,
          backClean = clean_html back\<rparr>)"

fun dedup_cards :: "(int \<rightharpoonup> note_dict) \<Rightarrow> card_row list \<Rightarrow> (int \<times> card) list \<Rightarrow> (int \<times> card) list" where
  \<comment> \<open>the loop over the fetched card rows; \<open>cards_by_note\<close> is a dictionary in insertion
      order\<close>
  "dedup_cards notes [] cards_by_note = cards_by_note"
| "dedup_cards notes (r # rows) cards_by_note =
     (if map_of cards_by_note (c_nid r) \<noteq> None then dedup_cards notes rows cards_by_note
      else dedup_cards notes rows (AList.update (c_nid r) (make_card notes r) cards_by_note))"

definition select_cards :: "database \<Rightarrow> card_row list" where
  \<comment> \<open>\<^verbatim>\<open>SELECT id, nid, did, ord FROM cards ORDER BY ord\<close>; rows of equal \<open>ord\<close> stay in
      table order\<close>
  "select_cards db = sort_key c_ord (cards_tbl db)"

definition cards_by_note :: "database \<Rightarrow> (int \<times> card) list" where
  \<comment> \<open>the dictionary \<^verbatim>\<open>cards_by_note\<close> when the loop over the cards has ended\<close>
  "cards_by_note db = dedup_cards (read_notes (notes_tbl db) Map.empty) (select_cards db) []"

definition parse_anki_collection :: "database \<Rightarrow> error + collection" where
  \<comment> \<open>\<^verbatim>\<open>row[0]\<close> raises \<^verbatim>\<open>TypeError\<close> when the table \<^verbatim>\<open>col\<close> has no row\<close>
  "parse_anki_collection db =
     (case col db of
        [] \<Rightarrow> Inl TypeError
      | row # _ \<Rightarrow>
          (let decks_json = (case col_decks row of None \<Rightarrow> [] | Some d \<Rightarrow> d);
               decks = collect_decks decks_json []
           in Inr \<lparr>out_decks = build_deck_tree decks, out_cards = map snd (cards_by_note db)\<rparr>))"

section \<open>Predicates of the properties\<close>

fun has_markup :: "string \<Rightarrow> bool" where
  \<comment> \<open>the text holds something \<open>clean_html\<close> rewrites: a sound reference, a line break or
      another tag, or one of the five entities\<close>
  "has_markup [] = False"
| "has_markup (c # cs) =
     (match_sound (c # cs) \<noteq> None \<or> match_br (c # cs) \<noteq> None \<or> match_tag (c # cs) \<noteq> None
      \<or> (\<exists>e \<in> set [''&nbsp;'', ''&lt;'', ''&gt;'', ''&amp;'', ''&quot;'']. prefix e (c # cs))
      \<or> has_markup cs)"

text \<open>
  The invariant of the loops of \<open>build_deck_tree\<close>, for decks taken from \<open>D\<close>: children
  are younger than their parent and lie in the store, as the roots and the entries of
  \<open>deck_map\<close> do; \<open>deck_map\<close> sends every path to the one node with that \<open>fullPath\<close>; every
  node is a root or the child of an older node; a node's \<open>fullPath\<close> ends with its name; and
  its id is the synthesized one or the id of a deck named as its \<open>fullPath\<close>.
\<close>

definition tree_inv :: "deck set \<Rightarrow> tree_state \<Rightarrow> bool" where
  "tree_inv D st \<longleftrightarrow>
     (\<forall>a < length (heap st). \<forall>c \<in> set (children (heap st ! a)). a < c \<and> c < length (heap st))
   \<and> (\<forall>r \<in> set (root_nodes st). r < length (heap st))
   \<and> (\<forall>p a. map_of (deck_map st) p = Some a \<longrightarrow> a < length (heap st) \<and> fullPath (heap st ! a) = p)
   \<and> (\<forall>a < length (heap st). map_of (deck_map st) (fullPath (heap st ! a)) = Some a)
   \<and> (\<forall>a < length (heap st). a \<in> set (root_nodes st)
          \<or> (\<exists>p < a. a \<in> set (children (heap st ! p))))
   \<and> (\<forall>a < length (heap st). fullPath (heap st ! a) = node_name (heap st ! a)
          \<or> (\<exists>q. fullPath (heap st ! a) = q @ ''::'' @ node_name (heap st ! a)))
   \<and> (\<forall>a < length (heap st). node_id (heap st ! a) = ''virtual_'' @ fullPath (heap st ! a)
          \<or> (\<exists>d \<in> D. d_name d = fullPath (heap st ! a) \<and> node_id (heap st ! a) = d_id d))"

definition valid_parent :: "nat option \<Rightarrow> tree_state \<Rightarrow> bool" where
  "valid_parent parent st \<longleftrightarrow> (case parent of None \<Rightarrow> True | Some p \<Rightarrow> p < length (heap st))"

text \<open>
  Where no deck name starts with an empty segment, every node that is not a root has a
  \<open>fullPath\<close> of two or more segments.
\<close>

definition roots_inv :: "tree_state \<Rightarrow> bool" where
  "roots_inv st \<longleftrightarrow>
     (\<forall>a < length (heap st). a \<in> set (root_nodes st)
        \<or> (\<exists>q. fullPath (heap st ! a) = q @ ''::'' @ node_name (heap st ! a)))"

text \<open>Worlds and collections that the properties are tried on.\<close>

definition empty_world :: world where
  "empty_world = \<lparr>dirs = {}, files = Map.empty, stdout = []\<rparr>"


definition cards_db :: database where
  "cards_db =
     \<lparr>col = [\<lparr>col_decks = None\<rparr>],
      notes_tbl = [\<lparr>n_id = 7, n_mid = 1, n_flds = ''Q'' @ [CHR 0x1F] @ ''A'', n_tags = []\<rparr>],
      cards_tbl = [\<lparr>c_id = 1, c_nid = 7, c_did = 3, c_ord = 1\<rparr>,
                   \<lparr>c_id = 2, c_nid = 7, c_did = 4, c_ord = 0\<rparr>,
                   \<lparr>c_id = 3, c_nid = 9, c_did = 3, c_ord = 0\<rparr>]\<rparr>"

definition default_db :: database where
  "default_db =
     \<lparr>col = [\<lparr>col_decks = Some [(''1'', \<lparr>name_entry = Some ''Default''\<rparr>),
                                (''2'', \<lparr>name_entry = Some ''Math''\<rparr>),
                                (''3'', \<lparr>name_entry = Some ''Math::Algebra''\<rparr>)]\<rparr>],
      notes_tbl = [], cards_tbl = []\<rparr>"

definition collision_db :: database where
  "collision_db =
     \<lparr>col = [\<lparr>col_decks = Some [(''virtual_A'', \<lparr>name_entry = Some ''Default''\<rparr>),
                                (''2'', \<lparr>name_entry = Some ''A::B''\<rparr>)]\<rparr>],
      notes_tbl = [], cards_tbl = []\<rparr>"

definition prefix_db :: database where
  "prefix_db =
     \<lparr>col = [\<lparr>col_decks = Some [(''1'', \<lparr>name_entry = Some ''Default::Sub''\<rparr>)]\<rparr>],
      notes_tbl = [], cards_tbl = []\<rparr>"

definition shadowed_db :: database where
  "shadowed_db =
     \<lparr>col = [\<lparr>col_decks = Some [(''1'', \<lparr>name_entry = Some ''::Default''\<rparr>),
                                (''2'', \<lparr>name_entry = Some ''Default::Sub''\<rparr>)]\<rparr>],
      notes_tbl = [], cards_tbl = []\<rparr>"

section \<open>The text sanitizer\<close>

lemma re_sub_no_match:
  "(\<And>u. suffix u s \<Longrightarrow> u \<noteq> [] \<Longrightarrow> m u = None) \<Longrightarrow> re_sub m s = s"
proof (induction s)
  case Nil
  then show ?case by simp
next
  case (Cons c cs)
  have "m (c # cs) = None" using Cons.prems[of "c # cs"] by simp
  moreover have "re_sub m cs = cs"
    by (rule Cons.IH) (simp add: Cons.prems suffix_Cons)
  ultimately show ?case by simp
qed

lemma replace_no_match:
  "old \<noteq> [] \<Longrightarrow> (\<And>u. suffix u s \<Longrightarrow> u \<noteq> [] \<Longrightarrow> \<not> prefix old u) \<Longrightarrow> replace old new s = s"
  unfolding replace_def by (simp add: re_sub_no_match)

lemma has_markup_suffix:
  "\<not> has_markup s \<Longrightarrow> suffix u s \<Longrightarrow> u \<noteq> [] \<Longrightarrow>
     match_sound u = None \<and> match_br u = None \<and> match_tag u = None
     \<and> \<not> prefix ''&nbsp;'' u \<and> \<not> prefix ''&lt;'' u \<and> \<not> prefix ''&gt;'' u
     \<and> \<not> prefix ''&amp;'' u \<and> \<not> prefix ''&quot;'' u"
proof (induction s)
  case Nil
  then show ?case by simp
next
  case (Cons c cs)
  show ?case
  proof (cases "u = c # cs")
    case True
    from Cons.prems(1) have A: "match_sound (c # cs) = None" "match_br (c # cs) = None"
        "match_tag (c # cs) = None"
      and B: "\<not> (\<exists>e \<in> set [''&nbsp;'', ''&lt;'', ''&gt;'', ''&amp;'', ''&quot;'']. prefix e (c # cs))"
      unfolding has_markup.simps by blast+
    from B have "\<not> prefix ''&nbsp;'' (c # cs) \<and> \<not> prefix ''&lt;'' (c # cs)
        \<and> \<not> prefix ''&gt;'' (c # cs) \<and> \<not> prefix ''&amp;'' (c # cs)
        \<and> \<not> prefix ''&quot;'' (c # cs)"
      by (simp del: Cons_prefix_Cons)
    with A show ?thesis unfolding True by blast
  next
    case False
    with Cons.prems(2) have "suffix u cs" by (simp add: suffix_Cons)
    moreover from Cons.prems(1) have "\<not> has_markup cs" by simp
    ultimately show ?thesis using Cons.IH Cons.prems(3) by blast
  qed
qed

lemma dropWhile_id: "xs = [] \<or> \<not> P (hd xs) \<Longrightarrow> dropWhile P xs = xs"
  by (cases xs) auto

lemma strip_strip: "strip (strip s) = strip s"
proof -
  define t where "t = dropWhile isspace s"
  define v where "v = dropWhile isspace (rev t)"
  have t: "t = [] \<or> \<not> isspace (hd t)" unfolding t_def by (metis hd_dropWhile)
  have v: "v = [] \<or> \<not> isspace (hd v)" unfolding v_def by (metis hd_dropWhile)
  have "suffix v (rev t)" unfolding v_def by (rule suffix_dropWhile)
  then have pre: "prefix (rev v) t"
    by (metis prefix_order.eq_iff rev_rev_ident suffix_to_prefix)
  have "rev v = [] \<or> \<not> isspace (hd (rev v))"
  proof (cases "rev v = []")
    case True
    then show ?thesis by simp
  next
    case False
    with pre have "hd (rev v) = hd t" "t \<noteq> []" by (auto simp: prefix_def)
    with t show ?thesis by simp
  qed
  then have 1: "dropWhile isspace (rev v) = rev v" by (rule dropWhile_id)
  have 2: "dropWhile isspace v = v" using v by (rule dropWhile_id)
  have "strip s = rev v" by (simp add: strip_def t_def v_def)
  moreover have "strip (rev v) = rev v" by (simp add: strip_def 1 2)
  ultimately show ?thesis by simp
qed

lemma clean_html_fixed:
  assumes "\<not> has_markup t" "strip t = t"
  shows "clean_html t = t"
proof (cases "t = []")
  case True
  then show ?thesis by (simp add: clean_html_def)
next
  case False
  note h = has_markup_suffix[OF assms(1)]
  have a: "re_sub match_sound t = t" by (rule re_sub_no_match) (use h in blast)
  have b: "re_sub match_br t = t" by (rule re_sub_no_match) (use h in blast)
  have c: "re_sub match_tag t = t" by (rule re_sub_no_match) (use h in blast)
  have d: "replace ''&nbsp;'' '' '' t = t" by (rule replace_no_match) (use h in blast)+
  have e: "replace ''&lt;'' ''<'' t = t" by (rule replace_no_match) (use h in blast)+
  have f: "replace ''&gt;'' ''>'' t = t" by (rule replace_no_match) (use h in blast)+
  have g: "replace ''&amp;'' ''&'' t = t" by (rule replace_no_match) (use h in blast)+
  have i: "replace ''&quot;'' [CHR 0x22] t = t" by (rule replace_no_match) (use h in blast)+
  show ?thesis using False by (simp add: clean_html_def Let_def a b c d e f g i assms(2))
qed

lemma strip_clean_html: "strip (clean_html s) = clean_html s"
  by (simp add: clean_html_def Let_def strip_strip) (simp add: strip_def)

lemma clean_html_example:
  "clean_html ''<b>Hi</b>&nbsp;there <BR />x[sound:a.mp3] '' = ''Hi there '' @ [CHR 0x0A] @ ''x''"
  by code_simp

lemma no_markup_example: "\<not> has_markup (''Hi there '' @ [CHR 0x0A] @ ''x'')"
  by code_simp

text \<open>
  C2, on the code: \<open>clean_html\<close> decodes \<^verbatim>\<open>&amp;\<close> after \<^verbatim>\<open>&nbsp;\<close>, \<^verbatim>\<open>&lt;\<close> and \<^verbatim>\<open>&gt;\<close>
  but before \<^verbatim>\<open>&quot;\<close>. The ampersand that \<^verbatim>\<open>&amp;\<close> gives is therefore not read again
  as the start of \<^verbatim>\<open>&lt;\<close> or of \<^verbatim>\<open>&amp;\<close>, and it is read again as the start of
  \<^verbatim>\<open>&quot;\<close>: \<^verbatim>\<open>&amp;quot;\<close> becomes a double quote, where the claim wants \<^verbatim>\<open>&quot;\<close>.
\<close>

theorem clean_html_decodes_amp_before_quot:
  "clean_html ''&amp;quot;'' = [CHR 0x22]
   \<and> clean_html ''a &amp;lt; b'' = ''a &lt; b''
   \<and> clean_html ''&amp;amp;'' = ''&amp;''"
proof -
  have "clean_html ''&amp;quot;'' = [CHR 0x22]" by code_simp
  moreover have "clean_html ''a &amp;lt; b'' = ''a &lt; b''" by code_simp
  moreover have "clean_html ''&amp;amp;'' = ''&amp;''" by code_simp
  ultimately show ?thesis by blast
qed

text \<open>
  C3, as stated, fails: the sanitizer decodes entities in one pass, so its output can hold
  an entity that a second pass decodes. \<^verbatim>\<open>&amp;lt;\<close> becomes \<^verbatim>\<open>&lt;\<close>, and that becomes
  \<^verbatim>\<open><\<close>.
\<close>

theorem clean_html_not_idempotent:
  "clean_html (clean_html ''&amp;lt;'') \<noteq> clean_html ''&amp;lt;''"
  by code_simp

text \<open>
  C3, amended: whenever the output of \<open>clean_html\<close> holds no sound reference, no tag and
  none of the five entities, cleaning it again changes nothing.
\<close>

theorem clean_html_idempotent_without_markup:
  "\<not> has_markup (clean_html s) \<Longrightarrow> clean_html (clean_html s) = clean_html s"
  by (rule clean_html_fixed) (simp_all add: strip_clean_html)

theorem clean_html_idempotent_without_markup_witness:
  "\<not> has_markup (clean_html ''<b>Hi</b>&nbsp;there <BR />x[sound:a.mp3] '')
   \<and> clean_html (clean_html ''<b>Hi</b>&nbsp;there <BR />x[sound:a.mp3] '')
       = clean_html ''<b>Hi</b>&nbsp;there <BR />x[sound:a.mp3] ''"
proof -
  have h: "\<not> has_markup (clean_html ''<b>Hi</b>&nbsp;there <BR />x[sound:a.mp3] '')"
    unfolding clean_html_example by (rule no_markup_example)
  show ?thesis using h clean_html_idempotent_without_markup[OF h] by blast
qed

section \<open>The archive reader\<close>











text \<open>
  C7: after the extraction, \<open>extract_colpkg\<close> returns the path of \<^verbatim>\<open>collection.anki21\<close> if
  that exists, otherwise the path of \<^verbatim>\<open>collection.anki2\<close> if that exists, and otherwise
  raises \<^verbatim>\<open>FileNotFoundError\<close>; it raises an error exactly when neither file exists.
\<close>

theorem extract_colpkg_priority:
  "fst (extract_colpkg z d w) = extractall z d w
   \<and> snd (extract_colpkg z d w) =
       (if os_path_exists (extractall z d w) (os_path_join d ''collection.anki21'')
        then Inr (os_path_join d ''collection.anki21'')
        else if os_path_exists (extractall z d w) (os_path_join d ''collection.anki2'')
        then Inr (os_path_join d ''collection.anki2'')
        else Inl FileNotFoundError)
   \<and> ((\<exists>e. snd (extract_colpkg z d w) = Inl e) =
       (\<not> os_path_exists (extractall z d w) (os_path_join d ''collection.anki21'')
        \<and> \<not> os_path_exists (extractall z d w) (os_path_join d ''collection.anki2'')))"
  by (simp add: extract_colpkg_def Let_def)

text \<open>
  C5, on the code: once the directory is made, a missing \<^verbatim>\<open>media\<close> member and one that is
  not JSON are caught, a warning is printed and 0 is returned. A member that is not UTF-8
  (here the four magic bytes of a Zstandard frame) raises \<^verbatim>\<open>UnicodeDecodeError\<close>, and one
  that holds JSON other than an object (here \<^verbatim>\<open>[]\<close>) raises \<^verbatim>\<open>AttributeError\<close>; neither is
  caught, where the claim wants a warning and 0.
\<close>

theorem extract_media_unparsable_map:
  "extract_media \<lparr>members = [(''media'', [0x28, 0xB5, 0x2F, 0xFD])], media_json = j\<rparr> output_dir w
     = and_then (makedirs (os_path_join output_dir ''media'') w) (\<lambda>w. (w, Inl UnicodeDecodeError))
   \<and> extract_media \<lparr>members = [(''media'', [0x5B, 0x5D])], media_json = Parsed (JArray [])\<rparr>
         output_dir w
     = and_then (makedirs (os_path_join output_dir ''media'') w) (\<lambda>w. (w, Inl AttributeError))
   \<and> extract_media \<lparr>members = [], media_json = j\<rparr> output_dir w
     = and_then (makedirs (os_path_join output_dir ''media'') w)
         (\<lambda>w. (print ''No media mapping found in archive.'' w, Inr 0))
   \<and> extract_media \<lparr>members = [(''media'', [0x7B])], media_json = JSONDecodeError\<rparr> output_dir w
     = and_then (makedirs (os_path_join output_dir ''media'') w)
         (\<lambda>w. (print ''No media mapping found in archive.'' w, Inr 0))
   \<and> snd (extract_media \<lparr>members = [(''media'', [0x28, 0xB5, 0x2F, 0xFD])], media_json = JSONDecodeError\<rparr>
           ''out'' empty_world) = Inl UnicodeDecodeError
   \<and> snd (extract_media \<lparr>members = [(''media'', [0x5B, 0x5D])], media_json = Parsed (JArray [])\<rparr>
           ''out'' empty_world) = Inl AttributeError"
proof -
  have "extract_media \<lparr>members = [(''media'', [0x28, 0xB5, 0x2F, 0xFD])], media_json = j\<rparr>
          output_dir w
     = and_then (makedirs (os_path_join output_dir ''media'') w) (\<lambda>w. (w, Inl UnicodeDecodeError))"
    by (simp add: extract_media_def Let_def zip_read_def)
  moreover have "extract_media \<lparr>members = [(''media'', [0x5B, 0x5D])], media_json = Parsed (JArray [])\<rparr>
         output_dir w
     = and_then (makedirs (os_path_join output_dir ''media'') w) (\<lambda>w. (w, Inl AttributeError))"
    by (simp add: extract_media_def Let_def zip_read_def)
  moreover have "extract_media \<lparr>members = [], media_json = j\<rparr> output_dir w
     = and_then (makedirs (os_path_join output_dir ''media'') w)
         (\<lambda>w. (print ''No media mapping found in archive.'' w, Inr 0))"
    by (simp add: extract_media_def Let_def zip_read_def)
  moreover have "extract_media \<lparr>members = [(''media'', [0x7B])], media_json = JSONDecodeError\<rparr>
         output_dir w
     = and_then (makedirs (os_path_join output_dir ''media'') w)
         (\<lambda>w. (print ''No media mapping found in archive.'' w, Inr 0))"
    by (simp add: extract_media_def Let_def zip_read_def)
  moreover have "snd (extract_media \<lparr>members = [(''media'', [0x28, 0xB5, 0x2F, 0xFD])], media_json = JSONDecodeError\<rparr>
           ''out'' empty_world) = Inl UnicodeDecodeError"
    by code_simp
  moreover have "snd (extract_media \<lparr>members = [(''media'', [0x5B, 0x5D])], media_json = Parsed (JArray [])\<rparr>
           ''out'' empty_world) = Inl AttributeError"
    by code_simp
  ultimately show ?thesis by blast
qed

section \<open>The cards of a collection\<close>

lemma dedup_cards_distinct:
  "distinct (map fst acc) \<Longrightarrow> distinct (map fst (dedup_cards notes rows acc))"
  by (induction rows arbitrary: acc) (simp_all add: distinct_update)

lemma dedup_cards_map_of:
  "map_of (dedup_cards notes rows acc) n =
     (case map_of acc n of
        Some c \<Rightarrow> Some c
      | None \<Rightarrow> map_option (make_card notes) (find (\<lambda>r. c_nid r = n) rows))"
proof (induction rows arbitrary: acc)
  case Nil
  then show ?case by (simp split: option.split)
next
  case (Cons r rows)
  show ?case
    by (auto simp: Cons.IH update_conv' split: option.split)
qed

lemma filter_key_single:
  "distinct (map fst al) \<Longrightarrow> map_of al n = Some c \<Longrightarrow> filter (\<lambda>kv. fst kv = n) al = [(n, c)]"
proof (induction al)
  case Nil
  then show ?case by simp
next
  case (Cons kv al)
  obtain k v where kv: "kv = (k, v)" by (cases kv)
  show ?case
  proof (cases "k = n")
    case True
    with Cons.prems kv have "n \<notin> fst ` set al" "v = c" by auto
    then have "filter (\<lambda>kv. fst kv = n) al = []" by (auto simp: filter_empty_conv)
    with True kv \<open>v = c\<close> show ?thesis by simp
  next
    case False
    with Cons kv show ?thesis by simp
  qed
qed

lemma find_sorted_least:
  "sorted (map f rows) \<Longrightarrow> find P rows = Some r \<Longrightarrow> r' \<in> set rows \<Longrightarrow> P r' \<Longrightarrow> f r \<le> f r'"
  by (induction rows) (auto split: if_splits)

lemma find_exists: "x \<in> set xs \<Longrightarrow> P x \<Longrightarrow> \<exists>y. find P xs = Some y"
  by (induction xs) auto

lemma find_SomeD: "find P xs = Some y \<Longrightarrow> y \<in> set xs \<and> P y"
  by (induction xs) (auto split: if_splits)

lemma read_notes_None:
  "read_notes rows m k = None \<longleftrightarrow> m k = None \<and> k \<notin> n_id ` set rows"
  by (induction rows arbitrary: m) (auto simp: Let_def)

lemma make_card_missing_note:
  "notes (c_nid r) = None \<Longrightarrow>
     make_card notes r = \<lparr>deckId = str_int (c_did r), front = [], frontClean = [], card_back = [], backClean = []\<rparr>"
  by (simp add: make_card_def fix_media_paths_def clean_html_def)

text \<open>
  C1: for every note id \<open>n\<close> that a row of the cards table refers to, the dictionary
  \<open>cards_by_note\<close> has exactly one entry for \<open>n\<close>. It is the card built from the first row of
  \<open>n\<close> in the rows ordered by \<open>ord\<close>, and that row has the least \<open>ord\<close> among the rows of \<open>n\<close>.
  The cards that \<open>parse_anki_collection\<close> returns are the values of that dictionary, and an
  absent configuration row is the only error.
\<close>

theorem one_card_per_note_minimal_ord:
  assumes "n \<in> c_nid ` set (cards_tbl db)"
  shows "\<exists>r. find (\<lambda>r. c_nid r = n) (select_cards db) = Some r
           \<and> r \<in> set (cards_tbl db) \<and> c_nid r = n
           \<and> (\<forall>r' \<in> set (cards_tbl db). c_nid r' = n \<longrightarrow> c_ord r \<le> c_ord r')
           \<and> filter (\<lambda>kv. fst kv = n) (cards_by_note db)
               = [(n, make_card (read_notes (notes_tbl db) Map.empty) r)]
           \<and> (case parse_anki_collection db of
                 Inr out \<Rightarrow> out_cards out = map snd (cards_by_note db)
               | Inl e \<Rightarrow> col db = [])"
proof -
  let ?rows = "select_cards db"
  let ?notes = "read_notes (notes_tbl db) Map.empty"
  have set_rows: "set ?rows = set (cards_tbl db)" by (simp add: select_cards_def)
  have sorted_rows: "sorted (map c_ord ?rows)" by (simp add: select_cards_def)
  from assms set_rows obtain r where r: "find (\<lambda>r. c_nid r = n) ?rows = Some r"
    using find_exists[of _ ?rows "\<lambda>r. c_nid r = n"] by auto
  then have r_in: "r \<in> set (cards_tbl db)" and r_nid: "c_nid r = n"
    using find_SomeD[OF r] set_rows by auto
  have least: "\<forall>r' \<in> set (cards_tbl db). c_nid r' = n \<longrightarrow> c_ord r \<le> c_ord r'"
    using find_sorted_least[OF sorted_rows r] set_rows by blast
  have "map_of (cards_by_note db) n = Some (make_card ?notes r)"
    by (simp add: cards_by_note_def dedup_cards_map_of r)
  moreover have "distinct (map fst (cards_by_note db))"
    by (simp add: cards_by_note_def dedup_cards_distinct)
  ultimately have single: "filter (\<lambda>kv. fst kv = n) (cards_by_note db) = [(n, make_card ?notes r)]"
    by (rule filter_key_single[rotated])
  have parse: "(case parse_anki_collection db of
                 Inr out \<Rightarrow> out_cards out = map snd (cards_by_note db)
               | Inl e \<Rightarrow> col db = [])"
    by (simp add: parse_anki_collection_def Let_def split: list.split)
  from r r_in r_nid least single parse show ?thesis by blast
qed

text \<open>
  C8: for a row of the cards table whose note id has no row in the notes table, the
  dictionary \<open>cards_by_note\<close> has a card under that note id, its four texts are empty, and it
  is among the cards that \<open>parse_anki_collection\<close> returns; an absent configuration row is
  the only error.
\<close>

theorem missing_note_gives_empty_card:
  assumes "r \<in> set (cards_tbl db)" and "c_nid r \<notin> n_id ` set (notes_tbl db)"
  shows "\<exists>c. map_of (cards_by_note db) (c_nid r) = Some c
           \<and> front c = [] \<and> frontClean c = [] \<and> card_back c = [] \<and> backClean c = []
           \<and> (case parse_anki_collection db of
                 Inr out \<Rightarrow> c \<in> set (out_cards out)
               | Inl e \<Rightarrow> col db = [])"
proof -
  let ?rows = "select_cards db"
  let ?notes = "read_notes (notes_tbl db) Map.empty"
  have set_rows: "set ?rows = set (cards_tbl db)" by (simp add: select_cards_def)
  from assms(1) set_rows obtain r0 where r0: "find (\<lambda>x. c_nid x = c_nid r) ?rows = Some r0"
    using find_exists[of r ?rows "\<lambda>x. c_nid x = c_nid r"] by auto
  then have nid: "c_nid r0 = c_nid r" using find_SomeD[OF r0] by simp
  have none: "?notes (c_nid r0) = None" using assms(2) by (simp add: read_notes_None nid)
  have mk: "make_card ?notes r0 = \<lparr>deckId = str_int (c_did r0), front = [], frontClean = [],
      card_back = [], backClean = []\<rparr>"
    using none by (rule make_card_missing_note)
  have m: "map_of (cards_by_note db) (c_nid r) = Some (make_card ?notes r0)"
    by (simp add: cards_by_note_def dedup_cards_map_of r0)
  then have "(c_nid r, make_card ?notes r0) \<in> set (cards_by_note db)" by (rule map_of_SomeD)
  then have "make_card ?notes r0 \<in> snd ` set (cards_by_note db)" by force
  then have parse: "(case parse_anki_collection db of
                 Inr out \<Rightarrow> make_card ?notes r0 \<in> set (out_cards out)
               | Inl e \<Rightarrow> col db = [])"
    by (simp add: parse_anki_collection_def Let_def split: list.split)
  have "front (make_card ?notes r0) = []" "frontClean (make_card ?notes r0) = []"
    "card_back (make_card ?notes r0) = []" "backClean (make_card ?notes r0) = []"
    by (simp_all add: mk)
  with m parse show ?thesis by blast
qed


lemma cards_by_note_example:
  "cards_by_note cards_db =
     [(7, \<lparr>deckId = ''4'', front = ''Q'', frontClean = ''Q'', card_back = ''A'', backClean = ''A''\<rparr>),
      (9, \<lparr>deckId = ''3'', front = [], frontClean = [], card_back = [], backClean = []\<rparr>)]"
  by code_simp

text \<open>
  C1 at a collection where note 7 has two cards: the card of \<open>ord\<close> 0, in deck 4, is kept.
\<close>

theorem one_card_per_note_minimal_ord_witness:
  "7 \<in> c_nid ` set (cards_tbl cards_db)
   \<and> (\<exists>r. find (\<lambda>r. c_nid r = 7) (select_cards cards_db) = Some r
           \<and> r \<in> set (cards_tbl cards_db) \<and> c_nid r = 7
           \<and> (\<forall>r' \<in> set (cards_tbl cards_db). c_nid r' = 7 \<longrightarrow> c_ord r \<le> c_ord r')
           \<and> filter (\<lambda>kv. fst kv = 7) (cards_by_note cards_db)
               = [(7, make_card (read_notes (notes_tbl cards_db) Map.empty) r)]
           \<and> (case parse_anki_collection cards_db of
                 Inr out \<Rightarrow> out_cards out = map snd (cards_by_note cards_db)
               | Inl e \<Rightarrow> col cards_db = []))
   \<and> filter (\<lambda>kv. fst kv = 7) (cards_by_note cards_db)
       = [(7, \<lparr>deckId = ''4'', front = ''Q'', frontClean = ''Q'', card_back = ''A'', backClean = ''A''\<rparr>)]"
proof -
  have h: "7 \<in> c_nid ` set (cards_tbl cards_db)" by (simp add: cards_db_def)
  have ev: "filter (\<lambda>kv. fst kv = 7) (cards_by_note cards_db)
       = [(7, \<lparr>deckId = ''4'', front = ''Q'', frontClean = ''Q'', card_back = ''A'', backClean = ''A''\<rparr>)]"
    unfolding cards_by_note_example by simp
  show ?thesis by (intro conjI h ev one_card_per_note_minimal_ord[OF h])
qed

text \<open>
  C8 at a collection whose third card refers to note 9, which has no row.
\<close>

theorem missing_note_gives_empty_card_witness:
  "\<lparr>c_id = 3, c_nid = 9, c_did = 3, c_ord = 0\<rparr> \<in> set (cards_tbl cards_db)
   \<and> c_nid \<lparr>c_id = 3, c_nid = 9, c_did = 3, c_ord = 0\<rparr> \<notin> n_id ` set (notes_tbl cards_db)
   \<and> (\<exists>c. map_of (cards_by_note cards_db) (c_nid \<lparr>c_id = 3, c_nid = 9, c_did = 3, c_ord = 0\<rparr>) = Some c
           \<and> front c = [] \<and> frontClean c = [] \<and> card_back c = [] \<and> backClean c = []
           \<and> (case parse_anki_collection cards_db of
                 Inr out \<Rightarrow> c \<in> set (out_cards out)
               | Inl e \<Rightarrow> col cards_db = []))"
proof -
  have h1: "\<lparr>c_id = 3, c_nid = 9, c_did = 3, c_ord = 0\<rparr> \<in> set (cards_tbl cards_db)"
    by (simp add: cards_db_def)
  have h2: "c_nid \<lparr>c_id = 3, c_nid = 9, c_did = 3, c_ord = 0\<rparr> \<notin> n_id ` set (notes_tbl cards_db)"
    by (simp add: cards_db_def)
  show ?thesis by (intro conjI h1 h2 missing_note_gives_empty_card[OF h1 h2])
qed

section \<open>The deck tree\<close>

lemma create_node_length [simp]:
  "length (heap (create_node deck part cp parent st)) = Suc (length (heap st))"
  by (simp add: create_node_def Let_def split: option.split)

lemma create_node_deck_map [simp]:
  "map_of (deck_map (create_node deck part cp parent st)) = (map_of (deck_map st))(cp \<mapsto> length (heap st))"
  by (simp add: create_node_def Let_def update_conv' split: option.split)

lemma create_node_heap:
  assumes "valid_parent parent st"
  shows "heap (create_node deck part cp parent st)
     = (case parent of
          Some p \<Rightarrow> (heap st)[p := (heap st ! p)\<lparr>children := children (heap st ! p) @ [length (heap st)]\<rparr>]
        | None \<Rightarrow> heap st)
       @ [\<lparr>node_id = (if cp = d_name deck then d_id deck else ''virtual_'' @ cp),
           node_name = part, fullPath = cp, children = []\<rparr>]"
proof (cases parent)
  case None
  then show ?thesis by (simp add: create_node_def Let_def)
next
  case (Some p)
  with assms have "p < length (heap st)" by (simp add: valid_parent_def)
  with Some show ?thesis
    by (simp add: create_node_def Let_def list_update_append1 nth_append)
qed

lemma create_node_old_fields [simp]:
  assumes "valid_parent parent st" "a < length (heap st)"
  shows "node_id (heap (create_node deck part cp parent st) ! a) = node_id (heap st ! a)"
    and "node_name (heap (create_node deck part cp parent st) ! a) = node_name (heap st ! a)"
    and "fullPath (heap (create_node deck part cp parent st) ! a) = fullPath (heap st ! a)"
    and "children (heap (create_node deck part cp parent st) ! a)
           = (if parent = Some a then children (heap st ! a) @ [length (heap st)]
              else children (heap st ! a))"
proof -
  show "node_id (heap (create_node deck part cp parent st) ! a) = node_id (heap st ! a)"
    using assms by (cases parent)
      (simp_all add: create_node_heap valid_parent_def nth_append nth_list_update)
  show "node_name (heap (create_node deck part cp parent st) ! a) = node_name (heap st ! a)"
    using assms by (cases parent)
      (simp_all add: create_node_heap valid_parent_def nth_append nth_list_update)
  show "fullPath (heap (create_node deck part cp parent st) ! a) = fullPath (heap st ! a)"
    using assms by (cases parent)
      (simp_all add: create_node_heap valid_parent_def nth_append nth_list_update)
  show "children (heap (create_node deck part cp parent st) ! a)
           = (if parent = Some a then children (heap st ! a) @ [length (heap st)]
              else children (heap st ! a))"
    using assms by (cases parent)
      (simp_all add: create_node_heap valid_parent_def nth_append nth_list_update)
qed

lemma create_node_new_fields [simp]:
  assumes "valid_parent parent st"
  shows "node_id (heap (create_node deck part cp parent st) ! length (heap st))
           = (if cp = d_name deck then d_id deck else ''virtual_'' @ cp)"
    and "node_name (heap (create_node deck part cp parent st) ! length (heap st)) = part"
    and "fullPath (heap (create_node deck part cp parent st) ! length (heap st)) = cp"
    and "children (heap (create_node deck part cp parent st) ! length (heap st)) = []"
  using assms by (cases parent; simp add: create_node_heap valid_parent_def nth_append)+

lemma create_node_roots:
  "root_nodes (create_node deck part cp parent st)
     = (case parent of
          Some p \<Rightarrow> root_nodes st
        | None \<Rightarrow> if \<exists>r \<in> set (root_nodes st). fullPath ((heap st @ [\<lparr>node_id = (if cp = d_name deck then d_id deck
                             else ''virtual_'' @ cp),
                 node_name = part, fullPath = cp, children = []\<rparr>]) ! r) = cp
                  then root_nodes st else root_nodes st @ [length (heap st)])"
  by (simp add: create_node_def Let_def split: option.split)

lemma create_node_roots_inv:
  assumes "tree_inv D st" "map_of (deck_map st) cp = None"
  shows "root_nodes (create_node deck part cp parent st)
     = (case parent of Some p \<Rightarrow> root_nodes st | None \<Rightarrow> root_nodes st @ [length (heap st)])"
proof -
  have "\<not> (\<exists>r \<in> set (root_nodes st). fullPath ((heap st @ [x]) ! r) = cp)" for x
  proof
    assume "\<exists>r \<in> set (root_nodes st). fullPath ((heap st @ [x]) ! r) = cp"
    then obtain r where r: "r \<in> set (root_nodes st)" "fullPath ((heap st @ [x]) ! r) = cp"
      by (rule bexE)
    from assms(1) r(1) have lt: "r < length (heap st)" unfolding tree_inv_def by blast
    with r(2) have "fullPath (heap st ! r) = cp" by (simp add: nth_append)
    moreover from assms(1) lt have "map_of (deck_map st) (fullPath (heap st ! r)) = Some r"
      unfolding tree_inv_def by blast
    ultimately show False using assms(2) by simp
  qed
  then show ?thesis unfolding create_node_roots by (simp split: option.split)
qed

lemma less_Suc_cases: "a < Suc n \<Longrightarrow> (a < n \<Longrightarrow> P) \<Longrightarrow> (a = n \<Longrightarrow> P) \<Longrightarrow> P"
  by (auto simp: less_Suc_eq)

lemma create_node_inv:
  assumes inv: "tree_inv D st" and vp: "valid_parent parent st"
    and new: "map_of (deck_map st) cp = None" and d: "deck \<in> D"
    and nm: "cp = part \<or> (\<exists>q. cp = q @ ''::'' @ part)"
  shows "tree_inv D (create_node deck part cp parent st)"
proof -
  let ?st = "create_node deck part cp parent st"
  let ?n = "length (heap st)"
  note roots = create_node_roots_inv[OF inv new, of deck part parent]
  note [simp] = create_node_old_fields[OF vp] create_node_new_fields[OF vp]
  from inv have
    W1: "\<And>a c. a < ?n \<Longrightarrow> c \<in> set (children (heap st ! a)) \<Longrightarrow> a < c \<and> c < ?n" and
    W2: "\<And>r. r \<in> set (root_nodes st) \<Longrightarrow> r < ?n" and
    D1: "\<And>p a. map_of (deck_map st) p = Some a \<Longrightarrow> a < ?n \<and> fullPath (heap st ! a) = p" and
    D2: "\<And>a. a < ?n \<Longrightarrow> map_of (deck_map st) (fullPath (heap st ! a)) = Some a" and
    R: "\<And>a. a < ?n \<Longrightarrow> a \<in> set (root_nodes st) \<or> (\<exists>p < a. a \<in> set (children (heap st ! p)))" and
    N: "\<And>a. a < ?n \<Longrightarrow> fullPath (heap st ! a) = node_name (heap st ! a)
          \<or> (\<exists>q. fullPath (heap st ! a) = q @ ''::'' @ node_name (heap st ! a))" and
    V: "\<And>a. a < ?n \<Longrightarrow> node_id (heap st ! a) = ''virtual_'' @ fullPath (heap st ! a)
          \<or> (\<exists>d \<in> D. d_name d = fullPath (heap st ! a) \<and> node_id (heap st ! a) = d_id d)"
    unfolding tree_inv_def by blast+
  have c1: "\<forall>a < length (heap ?st). \<forall>c \<in> set (children (heap ?st ! a)). a < c \<and> c < length (heap ?st)"
  proof (intro allI impI ballI)
    fix a c assume a: "a < length (heap ?st)" and c: "c \<in> set (children (heap ?st ! a))"
    from a have "a < Suc ?n" by simp
    then show "a < c \<and> c < length (heap ?st)"
    proof (rule less_Suc_cases)
      assume lt: "a < ?n"
      with c W1[of a c] show ?thesis by (auto split: if_splits)
    next
      assume "a = ?n"
      with c vp show ?thesis by simp
    qed
  qed
  have c2: "\<forall>r \<in> set (root_nodes ?st). r < length (heap ?st)"
    using W2 by (auto simp: roots less_Suc_eq split: option.split)
  have c3: "\<forall>p a. map_of (deck_map ?st) p = Some a \<longrightarrow> a < length (heap ?st) \<and> fullPath (heap ?st ! a) = p"
    using D1 by (auto simp: less_Suc_eq)
  have c4: "\<forall>a < length (heap ?st). map_of (deck_map ?st) (fullPath (heap ?st ! a)) = Some a"
  proof (intro allI impI)
    fix a assume "a < length (heap ?st)"
    then have "a < Suc ?n" by simp
    then show "map_of (deck_map ?st) (fullPath (heap ?st ! a)) = Some a"
    proof (rule less_Suc_cases)
      assume lt: "a < ?n"
      from D2[OF lt] new have "fullPath (heap st ! a) \<noteq> cp" by auto
      with lt D2[OF lt] show ?thesis by simp
    next
      assume "a = ?n" then show ?thesis by simp
    qed
  qed
  have c5: "\<forall>a < length (heap ?st). a \<in> set (root_nodes ?st)
          \<or> (\<exists>p < a. a \<in> set (children (heap ?st ! p)))"
  proof (intro allI impI)
    fix a assume "a < length (heap ?st)"
    then have "a < Suc ?n" by simp
    then show "a \<in> set (root_nodes ?st) \<or> (\<exists>p < a. a \<in> set (children (heap ?st ! p)))"
    proof (rule less_Suc_cases)
      assume lt: "a < ?n"
      from R[OF lt] show ?thesis
      proof
        assume "a \<in> set (root_nodes st)"
        then show ?thesis by (simp add: roots split: option.split)
      next
        assume "\<exists>p < a. a \<in> set (children (heap st ! p))"
        then obtain p where "p < a" "a \<in> set (children (heap st ! p))" by blast
        with lt have "p < a \<and> a \<in> set (children (heap ?st ! p))" by simp
        then show ?thesis by blast
      qed
    next
      assume eq: "a = ?n"
      show ?thesis
      proof (cases parent)
        case None
        with roots have "root_nodes ?st = root_nodes st @ [?n]" by simp
        then show ?thesis by (simp add: eq)
      next
        case (Some p)
        with vp have p: "p < ?n" by (simp add: valid_parent_def)
        have "children (heap ?st ! p) = children (heap st ! p) @ [?n]"
          unfolding create_node_old_fields(4)[OF vp p] using Some by simp
        with p have "p < a \<and> a \<in> set (children (heap ?st ! p))" by (simp add: eq)
        then show ?thesis by blast
      qed
    qed
  qed
  have c6: "\<forall>a < length (heap ?st). fullPath (heap ?st ! a) = node_name (heap ?st ! a)
          \<or> (\<exists>q. fullPath (heap ?st ! a) = q @ ''::'' @ node_name (heap ?st ! a))"
  proof (intro allI impI)
    fix a assume "a < length (heap ?st)"
    then have "a < Suc ?n" by simp
    then show "fullPath (heap ?st ! a) = node_name (heap ?st ! a)
          \<or> (\<exists>q. fullPath (heap ?st ! a) = q @ ''::'' @ node_name (heap ?st ! a))"
    proof (rule less_Suc_cases)
      assume lt: "a < ?n" with N[OF lt] show ?thesis by simp
    next
      assume "a = ?n" with nm show ?thesis by simp
    qed
  qed
  have c7: "\<forall>a < length (heap ?st). node_id (heap ?st ! a) = ''virtual_'' @ fullPath (heap ?st ! a)
          \<or> (\<exists>d \<in> D. d_name d = fullPath (heap ?st ! a) \<and> node_id (heap ?st ! a) = d_id d)"
  proof (intro allI impI)
    fix a assume "a < length (heap ?st)"
    then have "a < Suc ?n" by simp
    then show "node_id (heap ?st ! a) = ''virtual_'' @ fullPath (heap ?st ! a)
          \<or> (\<exists>d \<in> D. d_name d = fullPath (heap ?st ! a) \<and> node_id (heap ?st ! a) = d_id d)"
    proof (rule less_Suc_cases)
      assume lt: "a < ?n" with V[OF lt] show ?thesis by simp
    next
      assume "a = ?n" with d show ?thesis by auto
    qed
  qed
  from c1 c2 c3 c4 c5 c6 c7 show ?thesis unfolding tree_inv_def by blast
qed

lemma tree_inv_valid_lookup:
  "tree_inv D st \<Longrightarrow> valid_parent (map_of (deck_map st) p) st"
proof (cases "map_of (deck_map st) p")
  case None
  then show ?thesis by (simp add: valid_parent_def)
next
  case (Some a)
  assume "tree_inv D st"
  with Some have "a < length (heap st)" unfolding tree_inv_def by blast
  with Some show ?thesis by (simp add: valid_parent_def)
qed

lemma walk_parts_inv:
  assumes "deck \<in> D"
  shows "tree_inv D st \<Longrightarrow> valid_parent parent st
           \<Longrightarrow> tree_inv D (walk_parts deck parts cp parent st)"
proof (induction parts arbitrary: cp parent st)
  case Nil
  then show ?case by simp
next
  case (Cons part parts)
  define cp' where "cp' = (if cp \<noteq> [] then cp @ ''::'' @ part else part)"
  define st' where "st' = (if map_of (deck_map st) cp' = None
                then create_node deck part cp' parent st else st)"
  have nm: "cp' = part \<or> (\<exists>q. cp' = q @ ''::'' @ part)" unfolding cp'_def by auto
  have inv': "tree_inv D st'"
  proof (cases "map_of (deck_map st) cp' = None")
    case True
    then have "tree_inv D (create_node deck part cp' parent st)"
      using create_node_inv[OF Cons.prems(1,2) _ assms nm] by blast
    with True show ?thesis by (simp add: st'_def)
  next
    case False
    with Cons.prems(1) show ?thesis by (auto simp: st'_def)
  qed
  have "tree_inv D (walk_parts deck parts cp' (map_of (deck_map st') cp') st')"
    using inv' tree_inv_valid_lookup[OF inv'] by (rule Cons.IH)
  moreover have "walk_parts deck (part # parts) cp parent st
      = walk_parts deck parts cp' (map_of (deck_map st') cp') st'"
    by (simp only: walk_parts.simps Let_def cp'_def st'_def)
  ultimately show ?case by simp
qed

lemma add_deck_inv: "deck \<in> D \<Longrightarrow> tree_inv D st \<Longrightarrow> tree_inv D (add_deck st deck)"
  unfolding add_deck_def by (rule walk_parts_inv) (simp_all add: valid_parent_def)

lemma foldl_add_deck_inv:
  "set ds \<subseteq> D \<Longrightarrow> tree_inv D st \<Longrightarrow> tree_inv D (foldl add_deck st ds)"
  by (induction ds arbitrary: st) (simp_all add: add_deck_inv)

lemma tree_inv_init: "tree_inv D \<lparr>heap = [], deck_map = [], root_nodes = []\<rparr>"
  by (simp add: tree_inv_def)

lemma walk_parts_dom:
  "map_of (deck_map st) p \<noteq> None
     \<Longrightarrow> map_of (deck_map (walk_parts deck parts cp parent st)) p \<noteq> None"
proof (induction parts arbitrary: cp parent st)
  case Nil
  then show ?case by simp
next
  case (Cons part parts)
  show ?case
    unfolding walk_parts.simps Let_def
  proof (rule Cons.IH)
    let ?cp = "if cp \<noteq> [] then cp @ ''::'' @ part else part"
    show "map_of (deck_map (if map_of (deck_map st) ?cp = None
              then create_node deck part ?cp parent st else st)) p \<noteq> None"
      using Cons.prems by (cases "map_of (deck_map st) ?cp = None") auto
  qed
qed

lemma split_not_Nil: "split sep s \<noteq> []"
  by (induction sep s rule: split.induct) (auto split: list.split)

lemma add_deck_first_key:
  "map_of (deck_map (add_deck st deck)) (hd (split ''::'' (d_name deck))) \<noteq> None"
proof (cases "split ''::'' (d_name deck)")
  case Nil
  then show ?thesis by (simp add: split_not_Nil)
next
  case (Cons p0 ps)
  show ?thesis
    unfolding add_deck_def Cons walk_parts.simps Let_def list.sel
    by (rule walk_parts_dom) simp
qed

lemma add_deck_dom:
  "map_of (deck_map st) p \<noteq> None \<Longrightarrow> map_of (deck_map (add_deck st deck)) p \<noteq> None"
  unfolding add_deck_def by (rule walk_parts_dom)

lemma foldl_add_deck_dom:
  "map_of (deck_map st) p \<noteq> None \<Longrightarrow> map_of (deck_map (foldl add_deck st ds)) p \<noteq> None"
proof (induction ds arbitrary: st)
  case Nil
  then show ?case by simp
next
  case (Cons x ds)
  show ?case unfolding foldl_Cons
    by (rule Cons.IH) (rule add_deck_dom, rule Cons.prems)
qed

lemma foldl_add_deck_first_key:
  "d \<in> set ds \<Longrightarrow>
     map_of (deck_map (foldl add_deck st ds)) (hd (split ''::'' (d_name d))) \<noteq> None"
proof (induction ds arbitrary: st)
  case Nil
  then show ?case by simp
next
  case (Cons x ds)
  show ?case
  proof (cases "d = x")
    case True
    show ?thesis unfolding foldl_Cons True
      by (rule foldl_add_deck_dom) (rule add_deck_first_key)
  next
    case False
    with Cons.prems have "d \<in> set ds" by simp
    then show ?thesis unfolding foldl_Cons by (rule Cons.IH)
  qed
qed

lemma split_first_part:
  "CHR '':'' \<notin> set l \<Longrightarrow> split ''::'' (l @ ''::'' @ rest) = l # split ''::'' rest"
  by (induction l) auto

lemma those_map_Some:
  "(\<And>x. x \<in> set xs \<Longrightarrow> f x \<noteq> None) \<Longrightarrow> those (map f xs) = Some (map (the \<circ> f) xs)"
proof (induction xs)
  case Nil
  then show ?case by simp
next
  case (Cons a xs)
  from Cons.prems[of a] obtain y where y: "f a = Some y" by auto
  have "those (map f xs) = Some (map (the \<circ> f) xs)"
    by (rule Cons.IH) (simp add: Cons.prems)
  with y show ?case by simp
qed

lemma those_map_SomeD:
  "those (map f xs) = Some ys \<Longrightarrow> x \<in> set xs \<Longrightarrow> \<exists>y \<in> set ys. f x = Some y"
  by (induction xs arbitrary: ys) (auto split: option.splits)

lemma those_map_SomeD2:
  "those (map f xs) = Some ys \<Longrightarrow> y \<in> set ys \<Longrightarrow> \<exists>x \<in> set xs. f x = Some y"
  by (induction xs arbitrary: ys) (auto split: option.splits)

lemma node_tree_total:
  assumes W1: "\<And>a c. a < length h \<Longrightarrow> c \<in> set (children (h ! a)) \<Longrightarrow> a < c \<and> c < length h"
  shows "a < length h \<Longrightarrow> length h - a \<le> fuel \<Longrightarrow> node_tree h fuel a \<noteq> None"
proof (induction fuel arbitrary: a)
  case 0
  then show ?case by simp
next
  case (Suc fuel)
  have "node_tree h fuel c \<noteq> None" if "c \<in> set (children (h ! a))" for c
  proof (rule Suc.IH)
    from W1[OF Suc.prems(1) that] show "c < length h" by simp
    from W1[OF Suc.prems(1) that] Suc.prems(2) show "length h - c \<le> fuel" by arith
  qed
  then have "those (map (node_tree h fuel) (children (h ! a)))
      = Some (map (the \<circ> node_tree h fuel) (children (h ! a)))"
    by (rule those_map_Some)
  with Suc.prems(1) show ?case by simp
qed

lemma node_tree_SomeD:
  assumes "node_tree h fuel a = Some t"
  shows "a < length h \<and> dn_id t = node_id (h ! a) \<and> dn_name t = node_name (h ! a)
         \<and> dn_fullPath t = fullPath (h ! a)
         \<and> (\<exists>f. fuel = Suc f \<and> those (map (node_tree h f) (children (h ! a))) = Some (dn_children t))"
  using assms by (cases fuel) (auto split: if_splits)

lemma nodes_of_self: "t \<in> set (nodes_of t)"
  by (cases t) simp

lemma nodes_of_child:
  "c \<in> set (dn_children t) \<Longrightarrow> nd \<in> set (nodes_of c) \<Longrightarrow> nd \<in> set (nodes_of t)"
  by (cases t) auto

lemma nodes_of_trans:
  "nd \<in> set (nodes_of t) \<Longrightarrow> x \<in> set (nodes_of nd) \<Longrightarrow> x \<in> set (nodes_of t)"
proof (induction t)
  case (DeckNode i n p cs)
  from DeckNode.prems(1) consider "nd = DeckNode i n p cs"
    | c where "c \<in> set cs" "nd \<in> set (nodes_of c)" by auto
  then show ?case
  proof cases
    case 1
    with DeckNode.prems(2) show ?thesis by simp
  next
    case 2
    with DeckNode.IH[OF 2(1) 2(2) DeckNode.prems(2)] show ?thesis by auto
  qed
qed

lemma node_tree_sound:
  "node_tree h fuel a = Some t \<Longrightarrow> nd \<in> set (nodes_of t)
     \<Longrightarrow> \<exists>b f. node_tree h f b = Some nd"
proof (induction fuel arbitrary: a t)
  case 0
  then show ?case by simp
next
  case (Suc fuel)
  from node_tree_SomeD[OF Suc.prems(1)]
  have ch: "those (map (node_tree h fuel) (children (h ! a))) = Some (dn_children t)" by simp
  show ?case
  proof (cases "nd = t")
    case True
    with Suc.prems(1) show ?thesis by blast
  next
    case False
    with Suc.prems(2) obtain c where c: "c \<in> set (dn_children t)" "nd \<in> set (nodes_of c)"
      by (cases t) auto
    from those_map_SomeD2[OF ch c(1)] obtain x where "node_tree h fuel x = Some c" by blast
    from Suc.IH[OF this c(2)] show ?thesis .
  qed
qed

lemma tree_inv_tree_of:
  assumes "tree_inv D st"
  shows "\<exists>ts. tree_of (heap st, root_nodes st) = Some ts"
proof -
  from assms have
    W1: "\<And>a c. a < length (heap st) \<Longrightarrow> c \<in> set (children (heap st ! a))
           \<Longrightarrow> a < c \<and> c < length (heap st)" and
    W2: "\<And>r. r \<in> set (root_nodes st) \<Longrightarrow> r < length (heap st)"
    unfolding tree_inv_def by blast+
  have "node_tree (heap st) (length (heap st)) r \<noteq> None" if "r \<in> set (root_nodes st)" for r
    by (rule node_tree_total[OF W1]) (use W2[OF that] in simp_all)
  then have "those (map (node_tree (heap st) (length (heap st))) (root_nodes st))
     = Some (map (the \<circ> node_tree (heap st) (length (heap st))) (root_nodes st))"
    by (rule those_map_Some)
  then show ?thesis by (simp add: tree_of_def)
qed

lemma tree_of_sound:
  assumes "tree_of (h, roots) = Some ts" "t \<in> set ts" "nd \<in> set (nodes_of t)"
  shows "\<exists>b < length h. dn_id nd = node_id (h ! b) \<and> dn_name nd = node_name (h ! b)
           \<and> dn_fullPath nd = fullPath (h ! b)"
proof -
  from assms(1) have "those (map (node_tree h (length h)) roots) = Some ts"
    by (simp add: tree_of_def)
  from those_map_SomeD2[OF this assms(2)] obtain r where "node_tree h (length h) r = Some t"
    by blast
  from node_tree_sound[OF this assms(3)] obtain b f where "node_tree h f b = Some nd" by blast
  from node_tree_SomeD[OF this] show ?thesis by blast
qed

lemma tree_of_root:
  assumes "tree_of (h, roots) = Some ts" "r \<in> set roots"
  shows "\<exists>t \<in> set ts. dn_id t = node_id (h ! r) \<and> dn_name t = node_name (h ! r)
           \<and> dn_fullPath t = fullPath (h ! r)"
proof -
  from assms(1) have "those (map (node_tree h (length h)) roots) = Some ts"
    by (simp add: tree_of_def)
  from those_map_SomeD[OF this assms(2)] obtain t
    where t: "t \<in> set ts" "node_tree h (length h) r = Some t" by blast
  from node_tree_SomeD[OF t(2)] t(1) show ?thesis by blast
qed

lemma tree_of_complete:
  assumes inv: "tree_inv D st" and ts: "tree_of (heap st, root_nodes st) = Some ts"
  shows "a < length (heap st) \<Longrightarrow>
     \<exists>t \<in> set ts. \<exists>nd \<in> set (nodes_of t). \<exists>f. node_tree (heap st) f a = Some nd"
proof (induction a rule: less_induct)
  case (less a)
  from inv have
    R: "\<And>a. a < length (heap st) \<Longrightarrow> a \<in> set (root_nodes st)
          \<or> (\<exists>p < a. a \<in> set (children (heap st ! p)))"
    unfolding tree_inv_def by blast
  from ts have th: "those (map (node_tree (heap st) (length (heap st))) (root_nodes st)) = Some ts"
    by (simp add: tree_of_def)
  from R[OF less.prems] show ?case
  proof
    assume "a \<in> set (root_nodes st)"
    from those_map_SomeD[OF th this] obtain t
      where "t \<in> set ts" "node_tree (heap st) (length (heap st)) a = Some t" by blast
    then show ?thesis using nodes_of_self by blast
  next
    assume "\<exists>p < a. a \<in> set (children (heap st ! p))"
    then obtain p where p: "p < a" "a \<in> set (children (heap st ! p))" by blast
    from p(1) less.prems have "p < length (heap st)" by simp
    from less.IH[OF p(1) this] obtain t nd f
      where t: "t \<in> set ts" "nd \<in> set (nodes_of t)" "node_tree (heap st) f p = Some nd" by blast
    from node_tree_SomeD[OF t(3)] obtain f'
      where "those (map (node_tree (heap st) f') (children (heap st ! p))) = Some (dn_children nd)"
      by blast
    from those_map_SomeD[OF this p(2)] obtain c
      where c: "c \<in> set (dn_children nd)" "node_tree (heap st) f' a = Some c" by blast
    from c(1) have "c \<in> set (nodes_of nd)" by (rule nodes_of_child) (rule nodes_of_self)
    with t(2) have "c \<in> set (nodes_of t)" by (rule nodes_of_trans)
    with t(1) c(2) show ?thesis by blast
  qed
qed

lemma create_node_roots_inv2:
  assumes inv: "tree_inv D st" and rinv: "roots_inv st" and vp: "valid_parent parent st"
    and new: "map_of (deck_map st) cp = None"
    and nm: "parent = None \<or> (\<exists>q. cp = q @ ''::'' @ part)"
  shows "roots_inv (create_node deck part cp parent st)"
proof -
  let ?st = "create_node deck part cp parent st"
  let ?n = "length (heap st)"
  note roots = create_node_roots_inv[OF inv new, of deck part parent]
  note [simp] = create_node_old_fields[OF vp] create_node_new_fields[OF vp]
  have "a \<in> set (root_nodes ?st)
        \<or> (\<exists>q. fullPath (heap ?st ! a) = q @ ''::'' @ node_name (heap ?st ! a))"
    if "a < length (heap ?st)" for a
  proof -
    from that have "a < Suc ?n" by simp
    then show ?thesis
    proof (rule less_Suc_cases)
      assume lt: "a < ?n"
      with rinv have "a \<in> set (root_nodes st)
        \<or> (\<exists>q. fullPath (heap st ! a) = q @ ''::'' @ node_name (heap st ! a))"
        unfolding roots_inv_def by blast
      then show ?thesis using lt by (auto simp: roots split: option.split)
    next
      assume eq: "a = ?n"
      from nm show ?thesis
      proof
        assume "parent = None"
        with roots have "root_nodes ?st = root_nodes st @ [?n]" by simp
        then show ?thesis by (simp add: eq)
      next
        assume "\<exists>q. cp = q @ ''::'' @ part"
        then show ?thesis by (simp add: eq)
      qed
    qed
  qed
  then show ?thesis unfolding roots_inv_def by blast
qed

lemma walk_parts_roots_inv:
  assumes "deck \<in> D"
  shows "tree_inv D st \<Longrightarrow> roots_inv st \<Longrightarrow> valid_parent parent st
           \<Longrightarrow> cp \<noteq> [] \<or> (parent = None \<and> (parts = [] \<or> hd parts \<noteq> []))
           \<Longrightarrow> roots_inv (walk_parts deck parts cp parent st)"
proof (induction parts arbitrary: cp parent st)
  case Nil
  then show ?case by simp
next
  case (Cons part parts)
  define cp' where "cp' = (if cp \<noteq> [] then cp @ ''::'' @ part else part)"
  define st' where "st' = (if map_of (deck_map st) cp' = None
                then create_node deck part cp' parent st else st)"
  have nm: "cp' = part \<or> (\<exists>q. cp' = q @ ''::'' @ part)" unfolding cp'_def by auto
  have nm2: "parent = None \<or> (\<exists>q. cp' = q @ ''::'' @ part)"
    using Cons.prems(4) unfolding cp'_def by auto
  have ne: "cp' \<noteq> []" using Cons.prems(4) unfolding cp'_def by auto
  have inv': "tree_inv D st'"
  proof (cases "map_of (deck_map st) cp' = None")
    case True
    then have "tree_inv D (create_node deck part cp' parent st)"
      using create_node_inv[OF Cons.prems(1,3) _ assms nm] by blast
    with True show ?thesis by (simp add: st'_def)
  next
    case False
    with Cons.prems(1) show ?thesis by (auto simp: st'_def)
  qed
  have rinv': "roots_inv st'"
  proof (cases "map_of (deck_map st) cp' = None")
    case True
    then have "roots_inv (create_node deck part cp' parent st)"
      using create_node_roots_inv2[OF Cons.prems(1,2,3) _ nm2] by blast
    with True show ?thesis by (simp add: st'_def)
  next
    case False
    with Cons.prems(2) show ?thesis by (auto simp: st'_def)
  qed
  have "roots_inv (walk_parts deck parts cp' (map_of (deck_map st') cp') st')"
    using inv' rinv' tree_inv_valid_lookup[OF inv'] ne by (intro Cons.IH) simp_all
  moreover have "walk_parts deck (part # parts) cp parent st
      = walk_parts deck parts cp' (map_of (deck_map st') cp') st'"
    by (simp only: walk_parts.simps Let_def cp'_def st'_def)
  ultimately show ?case by simp
qed

lemma add_deck_roots_inv:
  assumes "deck \<in> D" "tree_inv D st" "roots_inv st" "hd (split ''::'' (d_name deck)) \<noteq> []"
  shows "roots_inv (add_deck st deck)"
  unfolding add_deck_def
  by (rule walk_parts_roots_inv[OF assms(1,2,3)]) (simp_all add: valid_parent_def assms(4))

lemma foldl_add_deck_roots_inv:
  "set ds \<subseteq> D \<Longrightarrow> (\<And>d. d \<in> set ds \<Longrightarrow> hd (split ''::'' (d_name d)) \<noteq> [])
     \<Longrightarrow> tree_inv D st \<Longrightarrow> roots_inv st \<Longrightarrow> roots_inv (foldl add_deck st ds)"
proof (induction ds arbitrary: st)
  case Nil
  then show ?case by simp
next
  case (Cons d ds)
  from Cons.prems have d: "d \<in> D" "hd (split ''::'' (d_name d)) \<noteq> []" by auto
  have "roots_inv (foldl add_deck (add_deck st d) ds)"
  proof (rule Cons.IH)
    show "set ds \<subseteq> D" using Cons.prems(1) by simp
    show "hd (split ''::'' (d_name x)) \<noteq> []" if "x \<in> set ds" for x
      using Cons.prems(2)[of x] that by simp
    show "tree_inv D (add_deck st d)" using d(1) Cons.prems(3) by (rule add_deck_inv)
    show "roots_inv (add_deck st d)" using d(1) Cons.prems(3,4) d(2) by (rule add_deck_roots_inv)
  qed
  then show ?case by simp
qed

lemma roots_inv_init: "roots_inv \<lparr>heap = [], deck_map = [], root_nodes = []\<rparr>"
  by (simp add: roots_inv_def)

lemma set_update_subset: "set (AList.update k v al) \<subseteq> insert (k, v) (set al)"
  by (induction al) auto

lemma update_mem: "(k, v) \<in> set (AList.update k v al)"
  by (induction al) auto

lemma update_other: "(k, v) \<in> set al \<Longrightarrow> k' \<noteq> k \<Longrightarrow> (k, v) \<in> set (AList.update k' v' al)"
  by (induction al) auto

lemma collect_decks_sound:
  "(k, d) \<in> set (collect_decks dj acc) \<Longrightarrow>
     (k, d) \<in> set acc
     \<or> (\<exists>info. (k, info) \<in> set dj \<and> lower (get_name info) \<notin> set default_labels
              \<and> d = \<lparr>d_id = k, d_name = get_name info\<rparr>)"
proof (induction dj arbitrary: acc)
  case Nil
  then show ?case by simp
next
  case (Cons x dj)
  obtain k' info' where x: "x = (k', info')" by (cases x)
  show ?case
  proof (cases "lower (get_name info') \<in> set default_labels")
    case True
    with Cons.prems x have "(k, d) \<in> set (collect_decks dj acc)" by simp
    from Cons.IH[OF this] show ?thesis by auto
  next
    case False
    with Cons.prems x have "(k, d) \<in> set (collect_decks dj
        (AList.update k' \<lparr>d_id = k', d_name = get_name info'\<rparr> acc))" by (simp add: Let_def)
    from Cons.IH[OF this] show ?thesis
    proof
      assume "(k, d) \<in> set (AList.update k' \<lparr>d_id = k', d_name = get_name info'\<rparr> acc)"
      with set_update_subset have "(k, d) = (k', \<lparr>d_id = k', d_name = get_name info'\<rparr>) \<or> (k, d) \<in> set acc"
        by fastforce
      with False x show ?thesis by auto
    next
      assume "\<exists>info. (k, info) \<in> set dj \<and> lower (get_name info) \<notin> set default_labels
              \<and> d = \<lparr>d_id = k, d_name = get_name info\<rparr>"
      then show ?thesis by auto
    qed
  qed
qed

lemma collect_decks_keeps:
  "(k, v) \<in> set acc \<Longrightarrow> k \<notin> fst ` set dj \<Longrightarrow> (k, v) \<in> set (collect_decks dj acc)"
proof (induction dj arbitrary: acc)
  case Nil
  then show ?case by simp
next
  case (Cons x dj)
  obtain k' info' where x: "x = (k', info')" by (cases x)
  with Cons.prems(2) have ne: "k' \<noteq> k" and notin: "k \<notin> fst ` set dj" by auto
  show ?case unfolding x
    by (auto simp: Let_def intro!: Cons.IH notin update_other[OF Cons.prems(1) ne] Cons.prems(1))
qed

lemma collect_decks_complete:
  "distinct (map fst dj) \<Longrightarrow> (k, info) \<in> set dj \<Longrightarrow> lower (get_name info) \<notin> set default_labels
     \<Longrightarrow> (k, \<lparr>d_id = k, d_name = get_name info\<rparr>) \<in> set (collect_decks dj acc)"
proof (induction dj arbitrary: acc)
  case Nil
  then show ?case by simp
next
  case (Cons x dj)
  obtain k' info' where x: "x = (k', info')" by (cases x)
  show ?case
  proof (cases "(k, info) = (k', info')")
    case True
    with Cons.prems(1) x have notin: "k \<notin> fst ` set dj" by auto
    have "(k, \<lparr>d_id = k, d_name = get_name info\<rparr>)
        \<in> set (collect_decks dj (AList.update k \<lparr>d_id = k, d_name = get_name info\<rparr> acc))"
      by (rule collect_decks_keeps[OF update_mem notin])
    with True x Cons.prems(3) show ?thesis by (simp add: Let_def)
  next
    case False
    with Cons.prems x have "(k, info) \<in> set dj" "distinct (map fst dj)" by auto
    then have "(k, \<lparr>d_id = k, d_name = get_name info\<rparr>) \<in> set (collect_decks dj acc')" for acc'
      using Cons.prems(3) by (intro Cons.IH)
    then show ?thesis unfolding x by (simp add: Let_def)
  qed
qed

lemma lower_char_colon: "lower_char (CHR '':'') = CHR '':''"
  by (simp add: lower_char_def)

lemma colon_in_lower: "CHR '':'' \<in> set s \<Longrightarrow> CHR '':'' \<in> set (lower s)"
  unfolding lower_def using lower_char_colon by (metis image_eqI set_map)

lemma default_label_no_colon: "x \<in> set default_labels \<Longrightarrow> CHR '':'' \<notin> set x"
  by (auto simp: default_labels_def)

lemma build_deck_tree_inv:
  "\<exists>st. build_deck_tree decks = (heap st, root_nodes st) \<and> tree_inv (snd ` set decks) st
      \<and> (\<forall>d \<in> snd ` set decks. map_of (deck_map st) (hd (split ''::'' (d_name d))) \<noteq> None)
      \<and> ((\<forall>d \<in> snd ` set decks. hd (split ''::'' (d_name d)) \<noteq> []) \<longrightarrow> roots_inv st)"
proof -
  let ?ds = "sort_key d_name (map snd decks)"
  let ?st = "foldl add_deck \<lparr>heap = [], deck_map = [], root_nodes = []\<rparr> ?ds"
  have s: "set ?ds = snd ` set decks" by simp
  have 1: "build_deck_tree decks = (heap ?st, root_nodes ?st)"
    by (simp add: build_deck_tree_def Let_def)
  have 2: "tree_inv (snd ` set decks) ?st"
    by (rule foldl_add_deck_inv) (simp_all add: tree_inv_init)
  have 3: "\<forall>d \<in> snd ` set decks. map_of (deck_map ?st) (hd (split ''::'' (d_name d))) \<noteq> None"
    using foldl_add_deck_first_key[of _ ?ds] s by blast
  have 4: "(\<forall>d \<in> snd ` set decks. hd (split ''::'' (d_name d)) \<noteq> []) \<longrightarrow> roots_inv ?st"
  proof
    assume a: "\<forall>d \<in> snd ` set decks. hd (split ''::'' (d_name d)) \<noteq> []"
    show "roots_inv ?st"
      by (rule foldl_add_deck_roots_inv[where D = "snd ` set decks"])
        (use a s in \<open>auto simp: tree_inv_init roots_inv_init\<close>)
  qed
  from 1 2 3 4 show ?thesis by blast
qed

lemma distinct_keys_unique:
  "distinct (map fst xs) \<Longrightarrow> (k, a) \<in> set xs \<Longrightarrow> (k, b) \<in> set xs \<Longrightarrow> a = b"
  by (rule eq_key_imp_eq_value)

lemma parse_decks:
  "col db = row # rows \<Longrightarrow> col_decks row = Some decks_json \<Longrightarrow>
     \<exists>out. parse_anki_collection db = Inr out
       \<and> out_decks out = build_deck_tree (collect_decks decks_json [])"
  by (simp add: parse_anki_collection_def Let_def)

text \<open>
  C6, amended: for every deck of the configuration row whose name lowers to a default
  label and whose id does not start with \<^verbatim>\<open>virtual_\<close>, the collection is parsed, the
  references of the result form a tree, and no node of that tree, at any depth, has the
  id of that deck.
\<close>

theorem default_deck_id_not_in_tree:
  assumes col: "col db = row # rows" "col_decks row = Some decks_json"
    and dist: "distinct (map fst decks_json)"
    and deck: "(k, info) \<in> set decks_json"
    and dflt: "lower (get_name info) \<in> set default_labels"
    and real: "\<not> prefix ''virtual_'' k"
  shows "\<exists>out ts. parse_anki_collection db = Inr out \<and> tree_of (out_decks out) = Some ts
           \<and> (\<forall>t \<in> set ts. \<forall>nd \<in> set (nodes_of t). dn_id nd \<noteq> k)"
proof -
  let ?decks = "collect_decks decks_json []"
  let ?D = "snd ` set ?decks"
  from parse_decks[OF col] obtain out
    where out: "parse_anki_collection db = Inr out" "out_decks out = build_deck_tree ?decks"
    by blast
  from build_deck_tree_inv[of ?decks] obtain st
    where st: "build_deck_tree ?decks = (heap st, root_nodes st)" and inv: "tree_inv ?D st"
    by blast
  from tree_inv_tree_of[OF inv] obtain ts where ts: "tree_of (heap st, root_nodes st) = Some ts"
    by blast
  from inv have V: "\<And>a. a < length (heap st) \<Longrightarrow>
      node_id (heap st ! a) = ''virtual_'' @ fullPath (heap st ! a)
      \<or> (\<exists>d \<in> ?D. d_name d = fullPath (heap st ! a) \<and> node_id (heap st ! a) = d_id d)"
    unfolding tree_inv_def by blast
  have "dn_id nd \<noteq> k" if t: "t \<in> set ts" and nd: "nd \<in> set (nodes_of t)" for t nd
  proof
    assume eq: "dn_id nd = k"
    from tree_of_sound[OF ts t nd] obtain b
      where b: "b < length (heap st)" "dn_id nd = node_id (heap st ! b)" by blast
    from V[OF b(1)] show False
    proof
      assume "node_id (heap st ! b) = ''virtual_'' @ fullPath (heap st ! b)"
      with b(2) eq have "prefix ''virtual_'' k" by (metis prefixI)
      with real show False by simp
    next
      assume "\<exists>d \<in> ?D. d_name d = fullPath (heap st ! b) \<and> node_id (heap st ! b) = d_id d"
      then obtain k' d where d: "(k', d) \<in> set ?decks" "node_id (heap st ! b) = d_id d" by force
      from collect_decks_sound[OF d(1)] obtain info'
        where i: "(k', info') \<in> set decks_json" "lower (get_name info') \<notin> set default_labels"
          "d = \<lparr>d_id = k', d_name = get_name info'\<rparr>" by auto
      from i(3) d(2) b(2) eq have "k' = k" by simp
      with i(1) deck dist have "info' = info" by (metis distinct_keys_unique)
      with i(2) dflt show False by simp
    qed
  qed
  with out st ts show ?thesis by auto
qed

text \<open>
  A deck named \<open>l::rest\<close>, where \<open>l\<close> lowers to a default label, is kept by the exclusion,
  and the tree of the result has a node named \<open>l\<close> with \<open>fullPath\<close> \<open>l\<close> and the synthesized
  id \<^verbatim>\<open>virtual_\<close>\<open>l\<close>. That node is a root whenever no kept deck has a name that starts
  with an empty segment.
\<close>

lemma default_prefix_deck_gets_virtual_node:
  assumes col: "col db = row # rows" "col_decks row = Some decks_json"
    and dist: "distinct (map fst decks_json)"
    and deck: "(k, info) \<in> set decks_json"
    and name: "name_entry info = Some (l @ ''::'' @ rest)"
    and dflt: "lower l \<in> set default_labels"
  shows "\<exists>out ts. parse_anki_collection db = Inr out \<and> tree_of (out_decks out) = Some ts
           \<and> (k, \<lparr>d_id = k, d_name = l @ ''::'' @ rest\<rparr>) \<in> set (collect_decks decks_json [])
           \<and> (\<exists>t \<in> set ts. \<exists>nd \<in> set (nodes_of t).
                 dn_name nd = l \<and> dn_fullPath nd = l \<and> dn_id nd = ''virtual_'' @ l)
           \<and> ((\<forall>d \<in> set (collect_decks decks_json []). hd (split ''::'' (d_name (snd d))) \<noteq> [])
                \<longrightarrow> (\<exists>t \<in> set ts. dn_name t = l \<and> dn_fullPath t = l \<and> dn_id t = ''virtual_'' @ l))"
proof -
  let ?decks = "collect_decks decks_json []"
  let ?D = "snd ` set ?decks"
  let ?name = "l @ ''::'' @ rest"
  from name have gn: "get_name info = ?name" by (simp add: get_name_def)
  have "CHR '':'' \<in> set (lower ?name)" by (rule colon_in_lower) simp
  then have nd: "lower (get_name info) \<notin> set default_labels"
    using default_label_no_colon gn by metis
  have kept: "(k, \<lparr>d_id = k, d_name = ?name\<rparr>) \<in> set ?decks"
    using collect_decks_complete[OF dist deck nd] gn by simp
  then have inD: "\<lparr>d_id = k, d_name = ?name\<rparr> \<in> ?D" by force
  have nocolon: "CHR '':'' \<notin> set l"
    using colon_in_lower[of l] default_label_no_colon[OF dflt] by blast
  have first: "hd (split ''::'' ?name) = l"
    unfolding split_first_part[OF nocolon] by simp
  from parse_decks[OF col] obtain out
    where out: "parse_anki_collection db = Inr out" "out_decks out = build_deck_tree ?decks"
    by blast
  from build_deck_tree_inv[of ?decks] obtain st
    where st: "build_deck_tree ?decks = (heap st, root_nodes st)" and inv: "tree_inv ?D st"
      and keys: "\<forall>d \<in> ?D. map_of (deck_map st) (hd (split ''::'' (d_name d))) \<noteq> None"
      and rts: "(\<forall>d \<in> ?D. hd (split ''::'' (d_name d)) \<noteq> []) \<longrightarrow> roots_inv st"
    by blast
  from tree_inv_tree_of[OF inv] obtain ts where ts: "tree_of (heap st, root_nodes st) = Some ts"
    by blast
  from inv have
    D1: "\<And>p a. map_of (deck_map st) p = Some a \<Longrightarrow> a < length (heap st) \<and> fullPath (heap st ! a) = p" and
    N: "\<And>a. a < length (heap st) \<Longrightarrow> fullPath (heap st ! a) = node_name (heap st ! a)
          \<or> (\<exists>q. fullPath (heap st ! a) = q @ ''::'' @ node_name (heap st ! a))" and
    V: "\<And>a. a < length (heap st) \<Longrightarrow> node_id (heap st ! a) = ''virtual_'' @ fullPath (heap st ! a)
          \<or> (\<exists>d \<in> ?D. d_name d = fullPath (heap st ! a) \<and> node_id (heap st ! a) = d_id d)"
    unfolding tree_inv_def by blast+
  from keys inD first obtain a where a: "map_of (deck_map st) l = Some a" by force
  from D1[OF a] have lt: "a < length (heap st)" and fp: "fullPath (heap st ! a) = l" by simp_all
  have noq: "\<not> (\<exists>q. l = q @ ''::'' @ x)" for x using nocolon by auto
  from N[OF lt] fp noq have nm: "node_name (heap st ! a) = l" by metis
  have id: "node_id (heap st ! a) = ''virtual_'' @ l"
  proof -
    have "\<not> (\<exists>d \<in> ?D. d_name d = l)"
    proof
      assume "\<exists>d \<in> ?D. d_name d = l"
      then obtain k' d where d: "(k', d) \<in> set ?decks" "d_name d = l" by force
      from collect_decks_sound[OF d(1)] obtain info'
        where "lower (get_name info') \<notin> set default_labels" "d = \<lparr>d_id = k', d_name = get_name info'\<rparr>"
        by auto
      with d(2) dflt show False by simp
    qed
    with V[OF lt] fp show ?thesis by auto
  qed
  from tree_of_complete[OF inv ts lt] obtain t nd f
    where t: "t \<in> set ts" "nd \<in> set (nodes_of t)" "node_tree (heap st) f a = Some nd" by blast
  from node_tree_SomeD[OF t(3)] nm fp id
  have "dn_name nd = l \<and> dn_fullPath nd = l \<and> dn_id nd = ''virtual_'' @ l" by simp
  with t have somewhere: "\<exists>t \<in> set ts. \<exists>nd \<in> set (nodes_of t).
                 dn_name nd = l \<and> dn_fullPath nd = l \<and> dn_id nd = ''virtual_'' @ l" by blast
  have root: "(\<forall>d \<in> set ?decks. hd (split ''::'' (d_name (snd d))) \<noteq> [])
                \<longrightarrow> (\<exists>t \<in> set ts. dn_name t = l \<and> dn_fullPath t = l \<and> dn_id t = ''virtual_'' @ l)"
  proof
    assume "\<forall>d \<in> set ?decks. hd (split ''::'' (d_name (snd d))) \<noteq> []"
    then have "\<forall>d \<in> ?D. hd (split ''::'' (d_name d)) \<noteq> []" by auto
    with rts have "roots_inv st" by blast
    with lt have "a \<in> set (root_nodes st)
        \<or> (\<exists>q. fullPath (heap st ! a) = q @ ''::'' @ node_name (heap st ! a))"
      unfolding roots_inv_def by blast
    with fp nm noq have "a \<in> set (root_nodes st)" by metis
    from tree_of_root[OF ts this] nm fp id
    show "\<exists>t \<in> set ts. dn_name t = l \<and> dn_fullPath t = l \<and> dn_id t = ''virtual_'' @ l" by auto
  qed
  from out st ts kept somewhere root show ?thesis by auto
qed

lemma lower_Default: "lower ''Default'' = ''default''"
  by code_simp

text \<open>
  C6, amended, at the decks \<^verbatim>\<open>Default\<close>, \<^verbatim>\<open>Math\<close> and \<^verbatim>\<open>Math::Algebra\<close>.
\<close>

theorem default_deck_id_not_in_tree_witness:
  "col default_db = \<lparr>col_decks = Some [(''1'', \<lparr>name_entry = Some ''Default''\<rparr>),
                                (''2'', \<lparr>name_entry = Some ''Math''\<rparr>),
                                (''3'', \<lparr>name_entry = Some ''Math::Algebra''\<rparr>)]\<rparr> # []
   \<and> distinct (map fst [(''1'', \<lparr>name_entry = Some ''Default''\<rparr>),
                                (''2'', \<lparr>name_entry = Some ''Math''\<rparr>),
                                (''3'', \<lparr>name_entry = Some ''Math::Algebra''\<rparr>)])
   \<and> lower (get_name \<lparr>name_entry = Some ''Default''\<rparr>) \<in> set default_labels
   \<and> \<not> prefix ''virtual_'' ''1''
   \<and> (\<exists>out ts. parse_anki_collection default_db = Inr out \<and> tree_of (out_decks out) = Some ts
           \<and> (\<forall>t \<in> set ts. \<forall>nd \<in> set (nodes_of t). dn_id nd \<noteq> ''1''))"
proof -
  let ?dj = "[(''1'', \<lparr>name_entry = Some ''Default''\<rparr>),
              (''2'', \<lparr>name_entry = Some ''Math''\<rparr>),
              (''3'', \<lparr>name_entry = Some ''Math::Algebra''\<rparr>)]"
  have h1: "col default_db = \<lparr>col_decks = Some ?dj\<rparr> # []" by (simp add: default_db_def)
  have h2: "col_decks \<lparr>col_decks = Some ?dj\<rparr> = Some ?dj" by simp
  have h3: "distinct (map fst ?dj)" by simp
  have h4: "(''1'', \<lparr>name_entry = Some ''Default''\<rparr>) \<in> set ?dj" by simp
  have h5: "lower (get_name \<lparr>name_entry = Some ''Default''\<rparr>) \<in> set default_labels"
    by (simp add: get_name_def lower_Default default_labels_def)
  have h6: "\<not> prefix ''virtual_'' ''1''" by simp
  show ?thesis
    by (intro conjI h1 h3 h5 h6 default_deck_id_not_in_tree[OF h1 h2 h3 h4 h5 h6])
qed

text \<open>
  C6, as stated, fails: a default deck whose id is \<^verbatim>\<open>virtual_A\<close>, beside a deck \<^verbatim>\<open>A::B\<close>.
  The default deck is left out, and the node synthesized for the prefix \<^verbatim>\<open>A\<close> has its id.
\<close>

theorem default_deck_id_reused_by_virtual_node:
  "lower (get_name \<lparr>name_entry = Some ''Default''\<rparr>) \<in> set default_labels
   \<and> map_sum id (\<lambda>out. tree_of (out_decks out)) (parse_anki_collection collision_db)
       = Inr (Some [DeckNode ''virtual_A'' ''A'' ''A'' [DeckNode ''2'' ''B'' ''A::B'' []]])"
proof -
  have "lower (get_name \<lparr>name_entry = Some ''Default''\<rparr>) \<in> set default_labels"
    by (simp add: get_name_def lower_Default default_labels_def)
  moreover have "map_sum id (\<lambda>out. tree_of (out_decks out)) (parse_anki_collection collision_db)
       = Inr (Some [DeckNode ''virtual_A'' ''A'' ''A'' [DeckNode ''2'' ''B'' ''A::B'' []]])"
    by code_simp
  ultimately show ?thesis by blast
qed

text \<open>
  C10, on the code: the deck \<^verbatim>\<open>Default::Sub\<close> is kept, and alone it gives the virtual root
  \<^verbatim>\<open>Default\<close> with the deck as its child. Beside a deck \<^verbatim>\<open>::Default\<close> the virtual node
  \<^verbatim>\<open>Default\<close> is still made, with the synthesized id, but it is no root: the path built
  so far is empty after the first segment of \<^verbatim>\<open>::Default\<close>, so the second segment starts
  the path \<^verbatim>\<open>Default\<close> again, under the node of the empty name.
\<close>

theorem default_prefix_node_under_empty_segment:
  "map_sum id (\<lambda>out. tree_of (out_decks out)) (parse_anki_collection prefix_db)
     = Inr (Some [DeckNode ''virtual_Default'' ''Default'' ''Default''
                    [DeckNode ''1'' ''Sub'' ''Default::Sub'' []]])
   \<and> map_sum id (\<lambda>out. tree_of (out_decks out)) (parse_anki_collection shadowed_db)
     = Inr (Some [DeckNode ''virtual_'' [] []
                    [DeckNode ''virtual_Default'' ''Default'' ''Default''
                       [DeckNode ''2'' ''Sub'' ''Default::Sub'' []]]])"
proof -
  have "map_sum id (\<lambda>out. tree_of (out_decks out)) (parse_anki_collection prefix_db)
     = Inr (Some [DeckNode ''virtual_Default'' ''Default'' ''Default''
                    [DeckNode ''1'' ''Sub'' ''Default::Sub'' []]])"
    by code_simp
  moreover have "map_sum id (\<lambda>out. tree_of (out_decks out)) (parse_anki_collection shadowed_db)
     = Inr (Some [DeckNode ''virtual_'' [] []
                    [DeckNode ''virtual_Default'' ''Default'' ''Default''
                       [DeckNode ''2'' ''Sub'' ''Default::Sub'' []]]])"
    by code_simp
  ultimately show ?thesis by blast
qed

text \<open>
  C4, on the code: for the single deck \<^verbatim>\<open>::A\<close> the path built so far is empty after the
  first segment, so the second segment starts the path again. The node \<^verbatim>\<open>A\<close> is a child of
  the node of the empty name, and its \<open>fullPath\<close> is \<^verbatim>\<open>A\<close>, not the join \<^verbatim>\<open>::A\<close> of the names
  from the root. No node has the id of the deck.
\<close>

theorem build_deck_tree_empty_first_segment:
  "tree_of (build_deck_tree [(''1'', \<lparr>d_id = ''1'', d_name = ''::A''\<rparr>)])
     = Some [DeckNode ''virtual_'' [] [] [DeckNode ''virtual_A'' ''A'' ''A'' []]]
   \<and> join ''::'' [[], ''A''] = ''::A''
   \<and> \<not> paths_joined [] (DeckNode ''virtual_'' [] [] [DeckNode ''virtual_A'' ''A'' ''A'' []])"
proof -
  have "tree_of (build_deck_tree [(''1'', \<lparr>d_id = ''1'', d_name = ''::A''\<rparr>)])
     = Some [DeckNode ''virtual_'' [] [] [DeckNode ''virtual_A'' ''A'' ''A'' []]]"
    by code_simp
  moreover have "join ''::'' [[], ''A''] = ''::A''" by simp
  moreover have "\<not> paths_joined [] (DeckNode ''virtual_'' [] [] [DeckNode ''virtual_A'' ''A'' ''A'' []])"
    by simp
  ultimately show ?thesis by blast
qed

end
